theory Spec2Isabelle
  imports Main "HOL-Library.AList" "HOL-Library.Multiset"
begin

section \<open>The game state of src/state/game.ts\<close>

text \<open>
  The reducer of the shooting competition is embedded as pure functions over records.
  An attempt slot is \<open>boolean | null\<close>: \<open>None\<close> is a pending slot, \<open>Some True\<close> a make and
  \<open>Some False\<close> a miss. The fields \<open>id\<close>, \<open>name\<close>, \<open>winner\<close> and \<open>attempts\<close> occur in
  several of the source's types; a record field is a constant of its own, so the fields of
  \<open>Player\<close> and \<open>Game\<close> that clash carry a prefix.

  A round's \<open>attempts\<close> object is an association list with one entry per key, in insertion
  order: the source enumerates it (\<open>for ... in\<close>, \<open>Object.values\<close>). Player ids are UUID
  strings (\<open>crypto.randomUUID\<close> in App.tsx), for which the list is the object. For other
  strings the two differ in two ways. JavaScript enumerates the keys that are array indices
  first, in numeric order; the functions that enumerate the object do not depend on the
  order of its entries, except for the order of the ids that \<open>checkWinners\<close> returns, of
  which \<open>endRound\<close> uses the number and the sole member (\<open>enumeration_order\<close> below). And the
  assignment \<open>all['__proto__'] = ...\<close> of \<open>createNextRound\<close> creates no key but sets the
  prototype of the object: a roster with the id \<open>__proto__\<close> is outside the embedding, and
  the theorems below on the completion of a match, on \<open>simulate\<close> and on the invariants of
  a started match exclude it by hypothesis. The test \<open>round.winner in winsByPlayer\<close> of
  \<open>checkGameOver\<close>, which is true of the names inherited from \<open>Object.prototype\<close>, is
  modelled for every string.
  Numbers that the source only uses as counts and indices are \<open>nat\<close> (\<open>new Array(n)\<close>
  accepts no other \<open>n\<close>); \<open>bestOf\<close> and \<open>percentage\<close> are \<open>int\<close>.
\<close>

type_synonym attempt = "bool option"

record Player =
  player_id :: string
  player_name :: string
  percentage :: int
  controlled :: bool

record Round =
  round_id :: string
  round_name :: string
  order :: "string list"
  attempts :: "(string \<times> attempt list) list"
  activePlayer :: nat
  winner :: "string option"

record Game =
  game_id :: string
  players :: "Player list"
  rounds :: "Round list"
  game_winner :: "Player option"
  bestOf :: int
  game_attempts :: nat
  activeRound :: nat

text \<open>The module constant \<open>GAME\<close>; its id is the UUID drawn when the module is loaded.\<close>

definition GAME :: "string \<Rightarrow> Game" where
  "GAME uuid = \<lparr>game_id = uuid, players = [], rounds = [], game_winner = None,
     bestOf = 3, game_attempts = 5, activeRound = 0\<rparr>"

text \<open>
  The type \<open>Action\<close> is a union of two members: the three actions that carry nothing, and
  \<open>start\<close> with its roster, attempt count and best-of count.
\<close>

datatype play = simulate | make | miss

datatype Action = Play play | Start "Player list" nat int

text \<open>Every \<open>throw\<close> of the module, and the failing \<open>invariant\<close> calls, as values.\<close>

datatype error =
    RoundNotFound
  | PlayerNotFound
  | PlayerNotInRound
  | NoMoreMakes
  | WinnerNotFound

subsection \<open>Queries\<close>

text \<open>\<open>game.rounds[game.activeRound]\<close> is \<open>undefined\<close> out of range, and \<open>invariant\<close> throws.\<close>

definition getActiveRound :: "Game \<Rightarrow> error + Round" where
  "getActiveRound game =
     (if activeRound game < length (rounds game)
      then Inr (rounds game ! activeRound game)
      else Inl RoundNotFound)"

text \<open>
  \<open>round.order[round.activePlayer]\<close> is \<open>undefined\<close> out of range; no player has that id,
  so \<open>find\<close> returns \<open>undefined\<close> and \<open>invariant\<close> throws.
\<close>

definition getActivePlayer :: "Game \<Rightarrow> error + Player" where
  "getActivePlayer game =
     (case getActiveRound game of
        Inl e \<Rightarrow> Inl e
      | Inr round \<Rightarrow>
          if activePlayer round < length (order round)
          then (case find (\<lambda>player. player_id player = order round ! activePlayer round)
                       (players game) of
                  None \<Rightarrow> Inl PlayerNotFound
                | Some player \<Rightarrow> Inr player)
          else Inl PlayerNotFound)"

subsection \<open>Randomness and fresh identifiers\<close>

text \<open>
  \<open>randomMake\<close> draws \<open>Math.round(Math.random() * 100)\<close>, a whole number from 0 to 100;
  the draw is an argument of the model. A reducer call takes the sequence \<open>rnd\<close> of the draws
  it would make (\<open>rnd k\<close> is the draw of the \<open>k\<close>-th call of \<open>randomMake\<close>) and the UUID
  \<open>uuid\<close> that \<open>getId\<close> would return (a call creates at most one round).
\<close>

definition randomMake :: "int \<Rightarrow> int \<Rightarrow> bool" where
  "randomMake random percentage' = (random \<le> percentage')"

text \<open>The loop of the \<open>simulate\<close> branch: every pending slot gets the next draw.\<close>

fun simulate_loop :: "(nat \<Rightarrow> int) \<Rightarrow> int \<Rightarrow> nat \<Rightarrow> attempt list \<Rightarrow> attempt list" where
  "simulate_loop rnd pct k [] = []"
| "simulate_loop rnd pct k (Some b # makes) = Some b # simulate_loop rnd pct k makes"
| "simulate_loop rnd pct k (None # makes) =
     Some (randomMake (rnd k) pct) # simulate_loop rnd pct (Suc k) makes"

subsection \<open>Round evaluation\<close>

text \<open>
  The inner loop of \<open>checkWinners\<close>: the makes of one player, or \<open>None\<close> when a pending slot
  is met (the source then returns the empty list from \<open>checkWinners\<close>).
\<close>

fun count_makes :: "attempt list \<Rightarrow> nat \<Rightarrow> nat option" where
  "count_makes [] total' = Some total'"
| "count_makes (None # rest) total' = None"
| "count_makes (Some b # rest) total' = count_makes rest (if b then Suc total' else total')"

fun checkWinners_loop ::
  "(string \<times> attempt list) list \<Rightarrow> nat \<Rightarrow> string list \<Rightarrow> string list" where
  "checkWinners_loop [] mx winner' = winner'"
| "checkWinners_loop ((playerId, atts) # rest) mx winner' =
     (case count_makes atts 0 of
        None \<Rightarrow> []
      | Some total' \<Rightarrow>
          if total' = mx then checkWinners_loop rest mx (winner' @ [playerId])
          else if total' > mx then checkWinners_loop rest total' [playerId]
          else checkWinners_loop rest mx winner')"

definition checkWinners :: "Game \<Rightarrow> error + string list" where
  "checkWinners game =
     (case getActiveRound game of
        Inl e \<Rightarrow> Inl e
      | Inr round \<Rightarrow> Inr (checkWinners_loop (attempts round) 0 []))"

text \<open>
  The decimal numeral of the template string \<open>Round #n\<close>; \<open>digit\<close> is only applied
  to numbers below ten.
\<close>

definition digit :: "nat \<Rightarrow> char" where
  "digit n = ''0123456789'' ! n"

function decimal :: "nat \<Rightarrow> string" where
  "decimal n = (if n < 10 then [digit n] else decimal (n div 10) @ [digit (n mod 10)])"
  by pat_completeness auto
termination
  by (relation "measure (\<lambda>n. n)") auto

text \<open>
  \<open>createNextRound\<close>: the \<open>reduce\<close> over the roster assigns one key per player, a later
  player with the same id replacing the sequence of an earlier one in place (for the id
  \<open>__proto__\<close> see the remark on the \<open>attempts\<close> object above).
\<close>

definition createNextRound :: "string \<Rightarrow> Game \<Rightarrow> Game" where
  "createNextRound uuid game =
     (let order' =
            (if length (rounds game) > 0
             then rev (order (rounds game ! (length (rounds game) - 1)))
             else map player_id (players game))
      in game
          \<lparr>activeRound := length (rounds game),
           rounds := rounds game @
             [\<lparr>round_id = uuid,
               round_name = ''Round #'' @ decimal (length (rounds game) + 1),
               order = order',
               attempts =
                 foldl (\<lambda>all player.
                          AList.update (player_id player)
                            (replicate (game_attempts game) None) all)
                   [] (players game),
               activePlayer = 0,
               winner = None\<rparr>]\<rparr>)"

definition overtime :: "Game \<Rightarrow> error + Game" where
  "overtime game =
     (case getActiveRound game of
        Inl e \<Rightarrow> Inl e
      | Inr round \<Rightarrow>
          Inr (game\<lparr>rounds := (rounds game)
                 [activeRound game :=
                    round\<lparr>attempts := map (\<lambda>(id', atts). (id', atts @ [None]))
                                         (attempts round)\<rparr>]\<rparr>))"

definition hasAttemptsLeft :: "Round \<Rightarrow> bool" where
  "hasAttemptsLeft round = list_ex (\<lambda>(id', atts). list_ex (\<lambda>attempt. attempt = None) atts)
     (attempts round)"

text \<open>
  \<open>Math.ceil(game.bestOf / 2)\<close> on a whole number, with the integer division of HOL (which
  rounds down); \<open>winsToFinish_ceiling\<close> below shows that it is the least whole number
  that is at least half of \<open>bestOf\<close>.
\<close>

definition winsToFinish :: "Game \<Rightarrow> int" where
  "winsToFinish game = - ((- bestOf game) div 2)"

text \<open>
  The property names that a plain object \<open>{}\<close> inherits from \<open>Object.prototype\<close>.
\<close>

definition Object_prototype :: "string list" where
  "Object_prototype =
     [''constructor'', ''hasOwnProperty'', ''isPrototypeOf'', ''propertyIsEnumerable'',
      ''toLocaleString'', ''toString'', ''valueOf'', ''__proto__'',
      ''__defineGetter__'', ''__defineSetter__'', ''__lookupGetter__'', ''__lookupSetter__'']"

text \<open>
  The loop of \<open>checkGameOver\<close> returns the id of the first round winner whose running tally
  equals \<open>winsToFinish\<close>. \<open>if (round.winner)\<close> tests truthiness: it skips \<open>null\<close> and
  the empty string. \<open>round.winner in winsByPlayer\<close> also holds for a name that the object
  inherits from \<open>Object.prototype\<close>: the increment then turns the inherited value into
  \<open>NaN\<close>, the tally of that id is \<open>NaN\<close> from then on and never equals \<open>winsToFinish\<close>, so
  the loop goes on. \<open>winsByPlayer\<close> holds the tallies that are numbers.
\<close>

fun checkGameOver_loop :: "Round list \<Rightarrow> (string \<rightharpoonup> nat) \<Rightarrow> int \<Rightarrow> string option" where
  "checkGameOver_loop [] winsByPlayer wins = None"
| "checkGameOver_loop (round # rest) winsByPlayer wins =
     (case winner round of
        None \<Rightarrow> checkGameOver_loop rest winsByPlayer wins
      | Some w \<Rightarrow>
          if w = [] then checkGameOver_loop rest winsByPlayer wins
          else if w \<in> set Object_prototype then checkGameOver_loop rest winsByPlayer wins
          else
            (let n = (case winsByPlayer w of Some m \<Rightarrow> Suc m | None \<Rightarrow> 1)
             in if int n = wins then Some w
                else checkGameOver_loop rest (winsByPlayer(w \<mapsto> n)) wins))"

definition checkGameOver :: "Game \<Rightarrow> error + (bool \<times> Game)" where
  "checkGameOver game =
     (case checkGameOver_loop (rounds game) Map.empty (winsToFinish game) of
        None \<Rightarrow> Inr (False, game)
      | Some w \<Rightarrow>
          (case find (\<lambda>player. player_id player = w) (players game) of
             None \<Rightarrow> Inl WinnerNotFound
           | Some player \<Rightarrow> Inr (True, game\<lparr>game_winner := Some player\<rparr>)))"

text \<open>
  The last part of \<open>endRound\<close> (from \<open>if (hasAttemptsLeft(round))\<close> on). The variable
  \<open>round\<close> of the source is the draft of the round that was active when \<open>endRound\<close> was
  entered, at index \<open>ar\<close>; \<open>nextRound\<close> is \<open>ar + 1\<close>. \<open>a === n - 1\<close> is written
  \<open>Suc a = n\<close>, which also is false for \<open>n = 0\<close>. The remainder modulo the length of
  \<open>order\<close> is only taken for a non-empty order: the reducer calls \<open>endRound\<close> after it has
  found the active player in it (\<open>getActivePlayer_order\<close> below).
\<close>

definition endRound_turn :: "nat \<Rightarrow> Game \<Rightarrow> Game" where
  "endRound_turn ar game =
     (let round = rounds game ! ar; nextRound = ar + 1 in
      if hasAttemptsLeft round
      then game\<lparr>rounds := (rounds game)
             [ar := round\<lparr>activePlayer := (activePlayer round + 1) mod length (order round)\<rparr>]\<rparr>
      else
        (let isLastPlayer = (Suc (activePlayer round) = length (order round));
             hasMoreRounds = (nextRound < length (rounds game))
         in if isLastPlayer \<and> hasMoreRounds
            then game\<lparr>rounds := (rounds game)[ar := round\<lparr>activePlayer := 0\<rparr>],
                      activeRound := nextRound\<rparr>
            else game))"

definition endRound :: "string \<Rightarrow> Game \<Rightarrow> error + Game" where
  "endRound uuid game =
     (case checkWinners game of
        Inl e \<Rightarrow> Inl e
      | Inr winners \<Rightarrow>
          (case getActiveRound game of
             Inl e \<Rightarrow> Inl e
           | Inr round \<Rightarrow>
               if length winners > 1 then overtime game
               else if length winners = 1 then
                 (let game1 = game\<lparr>rounds := (rounds game)
                        [activeRound game := round\<lparr>winner := Some (winners ! 0)\<rparr>]\<rparr>
                  in case checkGameOver game1 of
                       Inl e \<Rightarrow> Inl e
                     | Inr (True, game2) \<Rightarrow> Inr game2
                     | Inr (False, game2) \<Rightarrow>
                         Inr (endRound_turn (activeRound game) (createNextRound uuid game2)))
               else Inr (endRound_turn (activeRound game) game)))"

subsection \<open>The reducer\<close>

text \<open>
  The recipe that \<open>gameReducer\<close> passes to \<open>produce\<close> for \<open>simulate\<close>, \<open>make\<close> and
  \<open>miss\<close>, up to its call of \<open>endRound\<close>: \<open>None\<close> is the early \<open>return\<close> that leaves the
  draft untouched, \<open>Some (game, b)\<close> the draft after the attempt was recorded, with
  \<open>b\<close> telling whether \<open>endRound\<close> is called on it. \<open>nextMake === makes.length - 1\<close> is
  written \<open>Suc nextMake = length makes\<close>.
\<close>

definition findIndex_null :: "attempt list \<Rightarrow> nat option" where
  "findIndex_null makes = find (\<lambda>i. makes ! i = None) [0..<length makes]"

definition set_makes :: "Game \<Rightarrow> Round \<Rightarrow> string \<Rightarrow> attempt list \<Rightarrow> Game" where
  "set_makes game round playerId makes =
     game\<lparr>rounds := (rounds game)
       [activeRound game := round\<lparr>attempts := AList.update playerId makes (attempts round)\<rparr>]\<rparr>"

definition recipe :: "(nat \<Rightarrow> int) \<Rightarrow> Game \<Rightarrow> play \<Rightarrow> error + (Game \<times> bool) option" where
  "recipe rnd game t =
     (case getActiveRound game of
        Inl e \<Rightarrow> Inl e
      | Inr round \<Rightarrow>
          (case getActivePlayer game of
             Inl e \<Rightarrow> Inl e
           | Inr player \<Rightarrow>
               (case t of
                  simulate \<Rightarrow>
                    if controlled player then Inr None
                    else
                      (case map_of (attempts round) (player_id player) of
                         None \<Rightarrow> Inl PlayerNotInRound
                       | Some makes \<Rightarrow>
                           Inr (Some (set_makes game round (player_id player)
                                        (simulate_loop rnd (percentage player) 0 makes),
                                      True)))
                | _ \<Rightarrow>
                    if \<not> controlled player then Inr None
                    else
                      (case map_of (attempts round) (player_id player) of
                         None \<Rightarrow> Inl PlayerNotInRound
                       | Some makes \<Rightarrow>
                           (case findIndex_null makes of
                              None \<Rightarrow> Inl NoMoreMakes
                            | Some nextMake \<Rightarrow>
                                Inr (Some (set_makes game round (player_id player)
                                             (makes[nextMake := Some (t = make)]),
                                           Suc nextMake = length makes)))))))"

text \<open>
  \<open>produce\<close> returns the input state when the recipe returns early, the finished draft
  otherwise, and lets an exception of the recipe through (no state is returned then).
\<close>

fun gameReducer :: "string \<Rightarrow> (nat \<Rightarrow> int) \<Rightarrow> Game \<Rightarrow> Action \<Rightarrow> error + Game" where
  "gameReducer uuid rnd state (Play t) =
     (case recipe rnd state t of
        Inl e \<Rightarrow> Inl e
      | Inr None \<Rightarrow> Inr state
      | Inr (Some (game, False)) \<Rightarrow> Inr game
      | Inr (Some (game, True)) \<Rightarrow> endRound uuid game)"
| "gameReducer uuid rnd state (Start players' attempts' bestOf') =
     Inr (createNextRound uuid
            (state\<lparr>players := players', game_attempts := attempts', bestOf := bestOf'\<rparr>))"


section \<open>Notions of the specification\<close>

text \<open>
  The states the reducer can be in once a match has started: \<open>start\<close> dispatched on the
  module's initial state, followed by any number of \<open>simulate\<close>, \<open>make\<close> and \<open>miss\<close>
  actions that did not throw. (\<open>start\<close> is dispatched once: App.tsx shows its form only
  while the roster is empty.)
\<close>

inductive started :: "Game \<Rightarrow> bool" where
  started_start:
    "gameReducer uuid rnd (GAME gid) (Start ps n b) = Inr g \<Longrightarrow> started g"
| started_play:
    "started g \<Longrightarrow> gameReducer uuid rnd g (Play t) = Inr g' \<Longrightarrow> started g'"

text \<open>The total makes of an attempt sequence.\<close>

definition makes_of :: "attempt list \<Rightarrow> nat" where
  "makes_of atts = length (filter (\<lambda>a. a = Some True) atts)"

text \<open>
  The players holding the maximum total makes of a round: those of whom no player of the
  round has more makes.
\<close>

definition leaders :: "Round \<Rightarrow> string list" where
  "leaders r =
     map fst (filter (\<lambda>(k, v). \<forall>(k', v') \<in> set (attempts r). makes_of v' \<le> makes_of v)
                (attempts r))"

text \<open>A player's tally: the number of rounds of a sequence that the player has won.\<close>

definition wins :: "string \<Rightarrow> Round list \<Rightarrow> nat" where
  "wins w rs = length (filter (\<lambda>r. winner r = Some w) rs)"

text \<open>An attempt sequence is taken from the left: no slot after a pending one is filled.\<close>

definition taken_in_order :: "attempt list \<Rightarrow> bool" where
  "taken_in_order atts \<longleftrightarrow>
     (\<forall>i j. i < j \<longrightarrow> j < length atts \<longrightarrow> atts ! i = None \<longrightarrow> atts ! j = None)"

text \<open>
  The shape of the rounds of a started match: the keys of \<open>attempts\<close> are the roster's
  ids, the sequences of a round have one length and are taken in order, and a winner is a
  roster id.
\<close>

definition round_ok :: "string set \<Rightarrow> Round \<Rightarrow> bool" where
  "round_ok ids r \<longleftrightarrow>
     fst ` set (attempts r) = ids \<and>
     (\<forall>(k, v) \<in> set (attempts r). \<forall>(k', v') \<in> set (attempts r). length v = length v') \<and>
     (\<forall>(k, v) \<in> set (attempts r). taken_in_order v) \<and>
     (\<forall>w. winner r = Some w \<longrightarrow> w \<in> ids)"

definition game_ok :: "Game \<Rightarrow> bool" where
  "game_ok g \<longleftrightarrow>
     Suc (activeRound g) = length (rounds g) \<and>
     (\<forall>r \<in> set (rounds g). round_ok (player_id ` set (players g)) r)"

text \<open>
  What holds of the match winner in a started match: while there is none, the active round
  is undecided and no tally has reached \<open>winsToFinish\<close>; once there is one, the active round
  has a single leader and evaluating it again changes nothing.
\<close>

definition over_ok :: "Game \<Rightarrow> bool" where
  "over_ok g \<longleftrightarrow>
     (game_winner g = None \<longrightarrow>
        winner (rounds g ! activeRound g) = None \<and>
        checkGameOver_loop (rounds g) Map.empty (winsToFinish g) = None) \<and>
     (game_winner g \<noteq> None \<longrightarrow>
        (\<exists>w. checkWinners g = Inr [w]) \<and> (\<forall>uuid. endRound uuid g = Inr g))"

text \<open>
  The turn order of a started match: the order of every round lists the roster's ids, and
  \<open>activePlayer\<close> is an index into it (unless the roster is empty).
\<close>

definition turn_ok :: "Game \<Rightarrow> bool" where
  "turn_ok g \<longleftrightarrow>
     (\<forall>r \<in> set (rounds g).
        set (order r) = player_id ` set (players g) \<and>
        (players g \<noteq> [] \<longrightarrow> activePlayer r < length (order r)))"

text \<open>The tallies that the loop of \<open>checkGameOver\<close> has built after a sequence of rounds.\<close>

fun tally :: "Round list \<Rightarrow> (string \<rightharpoonup> nat) \<Rightarrow> (string \<rightharpoonup> nat)" where
  "tally [] winsByPlayer = winsByPlayer"
| "tally (round # rest) winsByPlayer =
     (case winner round of
        None \<Rightarrow> tally rest winsByPlayer
      | Some w \<Rightarrow>
          if w = [] then tally rest winsByPlayer
          else if w \<in> set Object_prototype then tally rest winsByPlayer
          else tally rest
                 (winsByPlayer(w \<mapsto> (case winsByPlayer w of Some m \<Rightarrow> Suc m | None \<Rightarrow> 1))))"

text \<open>
  The entries that the loop of \<open>checkWinners\<close> still adds when it has seen the maximum
  \<open>mx\<close> so far: those with at least \<open>mx\<close> makes that no entry of the list exceeds.
\<close>

definition top_of :: "(string \<times> attempt list) list \<Rightarrow> nat \<Rightarrow> (string \<times> attempt list) \<Rightarrow> bool" where
  "top_of al mx = (\<lambda>(k, v). mx \<le> makes_of v \<and> (\<forall>(k', v') \<in> set al. makes_of v' \<le> makes_of v))"

text \<open>The draft after \<open>endRound\<close> has set the winner of the active round.\<close>

definition decided :: "Game \<Rightarrow> string \<Rightarrow> Game" where
  "decided g w =
     g\<lparr>rounds := (rounds g)[activeRound g := (rounds g ! activeRound g)\<lparr>winner := Some w\<rparr>]\<rparr>"

text \<open>The draft after \<open>overtime\<close>.\<close>

definition extended :: "Game \<Rightarrow> Game" where
  "extended g =
     g\<lparr>rounds := (rounds g)
         [activeRound g :=
            (rounds g ! activeRound g)
              \<lparr>attempts := map (\<lambda>(id', atts). (id', atts @ [None]))
                               (attempts (rounds g ! activeRound g))\<rparr>]\<rparr>"

text \<open>The draft after the turn has passed to the next player of the active round.\<close>

definition passed :: "Game \<Rightarrow> Game" where
  "passed g =
     g\<lparr>rounds := (rounds g)
         [activeRound g :=
            (rounds g ! activeRound g)
              \<lparr>activePlayer :=
                 (activePlayer (rounds g ! activeRound g) + 1) mod
                   length (order (rounds g ! activeRound g))\<rparr>]\<rparr>"

text \<open>
  A decided round once the next round has been created after it: it keeps everything but
  its \<open>activePlayer\<close>, which \<open>endRound\<close> puts back to 0 when the last player of the order
  was active.
\<close>

definition resting :: "Round \<Rightarrow> Round" where
  "resting r =
     r\<lparr>activePlayer := (if Suc (activePlayer r) = length (order r) then 0 else activePlayer r)\<rparr>"

section \<open>Example matches\<close>

definition rnd0 :: "nat \<Rightarrow> int" where
  "rnd0 k = 0"

definition pA :: Player where
  "pA = \<lparr>player_id = ''a'', player_name = ''Ann'', percentage = 50, controlled = True\<rparr>"

definition pB :: Player where
  "pB = \<lparr>player_id = ''b'', player_name = ''Bob'', percentage = 50, controlled = True\<rparr>"

definition pC :: Player where
  "pC = \<lparr>player_id = ''c'', player_name = ''Cy'', percentage = 50, controlled = False\<rparr>"

text \<open>
  A match of Ann and Bob, one attempt per round, best of three: its first round (Ann shoots
  first) and its second round (Bob shoots first), given by the two slots, the index of the
  active player and the winner.
\<close>

definition round1 :: "attempt \<Rightarrow> attempt \<Rightarrow> nat \<Rightarrow> string option \<Rightarrow> Round" where
  "round1 a b ap w =
     \<lparr>round_id = ''r1'', round_name = ''Round #1'', order = [''a'', ''b''],
      attempts = [(''a'', [a]), (''b'', [b])], activePlayer = ap, winner = w\<rparr>"

definition round2 :: "attempt \<Rightarrow> attempt \<Rightarrow> nat \<Rightarrow> string option \<Rightarrow> Round" where
  "round2 a b ap w =
     \<lparr>round_id = ''r2'', round_name = ''Round #2'', order = [''b'', ''a''],
      attempts = [(''a'', [a]), (''b'', [b])], activePlayer = ap, winner = w\<rparr>"

definition match :: "Round list \<Rightarrow> Player option \<Rightarrow> nat \<Rightarrow> Game" where
  "match rs w ar =
     \<lparr>game_id = ''g'', players = [pA, pB], rounds = rs, game_winner = w,
      bestOf = 3, game_attempts = 1, activeRound = ar\<rparr>"

text \<open>The same two players with two attempts per round, Ann shooting.\<close>

definition two_shots :: "attempt list \<Rightarrow> Game" where
  "two_shots as =
     \<lparr>game_id = ''g'', players = [pA, pB],
      rounds = [\<lparr>round_id = ''r1'', round_name = ''Round #1'', order = [''a'', ''b''],
                 attempts = [(''a'', as), (''b'', [None, None])],
                 activePlayer = 0, winner = None\<rparr>],
      game_winner = None, bestOf = 3, game_attempts = 2, activeRound = 0\<rparr>"

text \<open>A match of the simulated Cy and Ann with two attempts per round.\<close>

definition with_cy :: "attempt list \<Rightarrow> nat \<Rightarrow> Game" where
  "with_cy as ap =
     \<lparr>game_id = ''g'', players = [pC, pA],
      rounds = [\<lparr>round_id = ''r1'', round_name = ''Round #1'', order = [''c'', ''a''],
                 attempts = [(''c'', as), (''a'', [None, None])],
                 activePlayer = ap, winner = None\<rparr>],
      game_winner = None, bestOf = 3, game_attempts = 2, activeRound = 0\<rparr>"

text \<open>A match of Ann and the simulated Cy with one attempt per round, Ann shooting first.\<close>

definition ann_and_cy :: "attempt list \<Rightarrow> attempt list \<Rightarrow> nat \<Rightarrow> Game" where
  "ann_and_cy as cs ap =
     \<lparr>game_id = ''g'', players = [pA, pC],
      rounds = [\<lparr>round_id = ''r1'', round_name = ''Round #1'', order = [''a'', ''c''],
                 attempts = [(''a'', as), (''c'', cs)],
                 activePlayer = ap, winner = None\<rparr>],
      game_winner = None, bestOf = 3, game_attempts = 1, activeRound = 0\<rparr>"

text \<open>
  The match of Ann and Bob after a second \<open>start\<close>, with the roster of Cy and Ann and two
  attempts, dispatched right after the first one.
\<close>

definition restarted :: Game where
  "restarted =
     \<lparr>game_id = ''g'', players = [pC, pA],
      rounds = [round1 None None 0 None,
                \<lparr>round_id = ''r2'', round_name = ''Round #2'', order = [''b'', ''a''],
                 attempts = [(''c'', [None, None]), (''a'', [None, None])],
                 activePlayer = 0, winner = None\<rparr>],
      game_winner = None, bestOf = 3, game_attempts = 2, activeRound = 1\<rparr>"

text \<open>
  A match of a player whose id is the empty string and Bob, one attempt per round, best of
  three; a round is given by its id, name and order, the two slots, the index of the active
  player and the winner.
\<close>

definition pE :: Player where
  "pE = \<lparr>player_id = '''', player_name = ''Eve'', percentage = 50, controlled = True\<rparr>"

definition nround ::
  "string \<Rightarrow> string \<Rightarrow> string list \<Rightarrow> attempt \<Rightarrow> attempt \<Rightarrow> nat \<Rightarrow> string option \<Rightarrow> Round" where
  "nround i nm ord e b ap w =
     \<lparr>round_id = i, round_name = nm, order = ord,
      attempts = [('''', [e]), (''b'', [b])], activePlayer = ap, winner = w\<rparr>"

definition nameless :: "Round list \<Rightarrow> nat \<Rightarrow> Game" where
  "nameless rs ar =
     \<lparr>game_id = ''g'', players = [pE, pB], rounds = rs, game_winner = None,
      bestOf = 3, game_attempts = 1, activeRound = ar\<rparr>"

section \<open>Auxiliary lemmas\<close>

subsection \<open>The loops\<close>

lemma count_makes_eq:
  "count_makes atts n = (if None \<in> set atts then None else Some (n + makes_of atts))"
proof (induction atts n rule: count_makes.induct)
  case (1 total')
  then show ?case by (simp add: makes_of_def)
next
  case (2 rest total')
  then show ?case by simp
next
  case (3 b rest total')
  then show ?case by (simp add: makes_of_def)
qed

lemma hasAttemptsLeft_iff:
  "hasAttemptsLeft r \<longleftrightarrow> (\<exists>(k, v) \<in> set (attempts r). None \<in> set v)"
  by (auto simp: hasAttemptsLeft_def list_ex_iff)

lemma checkWinners_loop_pending:
  "\<exists>(k, v) \<in> set al. None \<in> set v \<Longrightarrow> checkWinners_loop al mx acc = []"
proof (induction al mx acc rule: checkWinners_loop.induct)
  case (1 mx winner')
  then show ?case by simp
next
  case (2 playerId atts rest mx winner')
  show ?case
  proof (cases "None \<in> set atts")
    case True
    then show ?thesis by (simp add: count_makes_eq)
  next
    case False
    with 2 show ?thesis by (auto simp: count_makes_eq)
  qed
qed

lemma checkWinners_loop_filled:
  "\<forall>(k, v) \<in> set al. None \<notin> set v \<Longrightarrow>
   checkWinners_loop al mx acc =
     (if \<forall>(k, v) \<in> set al. makes_of v \<le> mx then acc else []) @
     map fst (filter (top_of al mx) al)"
proof (induction al mx acc rule: checkWinners_loop.induct)
  case (1 mx winner')
  then show ?case by simp
next
  case (2 playerId atts rest mx winner')
  have full: "None \<notin> set atts" and rest: "\<forall>(k, v) \<in> set rest. None \<notin> set v"
    using 2 by auto
  have cm: "count_makes atts 0 = Some (makes_of atts)"
    using full by (simp add: count_makes_eq)
  consider (eq) "makes_of atts = mx" | (gt) "mx < makes_of atts" | (lt) "makes_of atts < mx"
    by linarith
  then show ?case
  proof cases
    case eq
    have ih: "checkWinners_loop rest mx (winner' @ [playerId]) =
       (if \<forall>(k, v) \<in> set rest. makes_of v \<le> mx then winner' @ [playerId] else []) @
       map fst (filter (top_of rest mx) rest)"
      using 2(1) [OF cm eq rest] by simp
    have f: "filter (top_of ((playerId, atts) # rest) mx) rest = filter (top_of rest mx) rest"
      using eq by (intro filter_cong) (auto simp: top_of_def)
    show ?thesis using eq cm ih f by (auto simp: top_of_def)
  next
    case gt
    have ih: "checkWinners_loop rest (makes_of atts) [playerId] =
       (if \<forall>(k, v) \<in> set rest. makes_of v \<le> makes_of atts then [playerId] else []) @
       map fst (filter (top_of rest (makes_of atts)) rest)"
      using 2(2) [OF cm _ _ rest] gt by simp
    have f: "filter (top_of ((playerId, atts) # rest) mx) rest = filter (top_of rest (makes_of atts)) rest"
      using gt by (intro filter_cong) (auto simp: top_of_def)
    show ?thesis using gt cm ih f by (auto simp: top_of_def)
  next
    case lt
    have ih: "checkWinners_loop rest mx winner' =
       (if \<forall>(k, v) \<in> set rest. makes_of v \<le> mx then winner' else []) @
       map fst (filter (top_of rest mx) rest)"
      using 2(3) [OF cm _ _ rest] lt by simp
    have f: "filter (top_of ((playerId, atts) # rest) mx) rest = filter (top_of rest mx) rest"
      using lt by (intro filter_cong) (auto simp: top_of_def)
    show ?thesis using lt cm ih f by (auto simp: top_of_def)
  qed
qed

lemma checkWinners_loop_leaders:
  "\<not> hasAttemptsLeft r \<Longrightarrow> checkWinners_loop (attempts r) 0 [] = leaders r"
proof -
  assume "\<not> hasAttemptsLeft r"
  then have full: "\<forall>(k, v) \<in> set (attempts r). None \<notin> set v"
    by (auto simp: hasAttemptsLeft_iff)
  have "filter (top_of (attempts r) 0) (attempts r) =
        filter (\<lambda>(k, v). \<forall>(k', v') \<in> set (attempts r). makes_of v' \<le> makes_of v) (attempts r)"
    by (intro filter_cong) (auto simp: top_of_def)
  then show ?thesis
    using checkWinners_loop_filled [OF full, of 0 "[]"] by (simp add: leaders_def)
qed

lemma enumeration_order:
  assumes "mset (attempts r) = mset (attempts r')"
  shows "hasAttemptsLeft r = hasAttemptsLeft r'"
    and "mset (checkWinners_loop (attempts r) 0 []) = mset (checkWinners_loop (attempts r') 0 [])"
    and "mset (map (\<lambda>(id', atts). (id', atts @ [None :: attempt])) (attempts r)) =
         mset (map (\<lambda>(id', atts). (id', atts @ [None])) (attempts r'))"
proof -
  have s: "set (attempts r) = set (attempts r')" using assms by (rule mset_eq_setD)
  show h: "hasAttemptsLeft r = hasAttemptsLeft r'" by (simp add: hasAttemptsLeft_iff s)
  show "mset (checkWinners_loop (attempts r) 0 []) = mset (checkWinners_loop (attempts r') 0 [])"
  proof (cases "hasAttemptsLeft r")
    case True
    then show ?thesis
      using h checkWinners_loop_pending [of "attempts r" 0 "[]"]
        checkWinners_loop_pending [of "attempts r'" 0 "[]"]
      by (simp add: hasAttemptsLeft_iff)
  next
    case False
    then have "checkWinners_loop (attempts r) 0 [] = leaders r"
      "checkWinners_loop (attempts r') 0 [] = leaders r'"
      using h by (simp_all add: checkWinners_loop_leaders)
    then show ?thesis
      by (simp add: leaders_def s assms)
  qed
  show "mset (map (\<lambda>(id', atts). (id', atts @ [None :: attempt])) (attempts r)) =
      mset (map (\<lambda>(id', atts). (id', atts @ [None])) (attempts r'))"
    by (simp add: assms)
qed

lemma simulate_loop_length [simp]: "length (simulate_loop rnd pct k makes) = length makes"
  by (induction rnd pct k makes rule: simulate_loop.induct) auto

lemma simulate_loop_filled: "None \<notin> set (simulate_loop rnd pct k makes)"
  by (induction rnd pct k makes rule: simulate_loop.induct) auto

lemma simulate_loop_keeps:
  "i < length makes \<Longrightarrow> makes ! i \<noteq> None \<Longrightarrow> simulate_loop rnd pct k makes ! i = makes ! i"
proof (induction rnd pct k makes arbitrary: i rule: simulate_loop.induct)
  case (1 rnd pct k)
  then show ?case by simp
next
  case (2 rnd pct k b makes)
  then show ?case by (cases i) auto
next
  case (3 rnd pct k makes)
  then show ?case by (cases i) auto
qed

lemma simulate_loop_id: "None \<notin> set makes \<Longrightarrow> simulate_loop rnd pct k makes = makes"
  by (induction rnd pct k makes rule: simulate_loop.induct) auto

lemma findIndex_null_None: "findIndex_null makes = None \<longleftrightarrow> None \<notin> set makes"
  unfolding findIndex_null_def find_None_iff by (auto simp: in_set_conv_nth)

lemma findIndex_null_Some:
  "findIndex_null makes = Some i \<longleftrightarrow>
     i < length makes \<and> makes ! i = None \<and> (\<forall>j < i. makes ! j \<noteq> None)"
proof
  assume "findIndex_null makes = Some i"
  then obtain n where n: "n < length [0..<length makes]" "makes ! ([0..<length makes] ! n) = None"
    "i = [0..<length makes] ! n" "\<forall>j<n. makes ! ([0..<length makes] ! j) \<noteq> None"
    unfolding findIndex_null_def find_Some_iff by blast
  then have "n < length makes" by simp
  then have "i = n" using n(3) by simp
  then show "i < length makes \<and> makes ! i = None \<and> (\<forall>j < i. makes ! j \<noteq> None)"
    using n by auto
next
  assume a: "i < length makes \<and> makes ! i = None \<and> (\<forall>j < i. makes ! j \<noteq> None)"
  show "findIndex_null makes = Some i"
    unfolding findIndex_null_def find_Some_iff
    by (rule exI [of _ i]) (use a in auto)
qed

subsection \<open>Attempt sequences taken in order\<close>

lemma taken_in_order_filled:
  assumes "None \<notin> set atts"
  shows "taken_in_order atts"
  unfolding taken_in_order_def
proof (intro allI impI)
  fix i j
  assume "i < j" "j < length atts" "atts ! i = None"
  then have "i < length atts" by simp
  then have "atts ! i \<in> set atts" by (rule nth_mem)
  with assms \<open>atts ! i = None\<close> show "atts ! j = None" by simp
qed

lemma taken_in_order_replicate: "taken_in_order (replicate n None)"
  by (simp add: taken_in_order_def)

lemma taken_in_order_snoc: "taken_in_order atts \<Longrightarrow> taken_in_order (atts @ [None])"
  by (auto simp: taken_in_order_def nth_append)

lemma taken_in_order_fill:
  assumes "taken_in_order makes" and "findIndex_null makes = Some i"
  shows "taken_in_order (makes[i := Some b])"
  unfolding taken_in_order_def
proof (intro allI impI)
  fix k j
  assume kj: "k < j" and j: "j < length (makes[i := Some b])"
    and k: "makes[i := Some b] ! k = None"
  from assms(2) have i: "i < length makes" "\<forall>l < i. makes ! l \<noteq> None"
    by (auto simp: findIndex_null_Some)
  have "k \<noteq> i" using k i(1) by auto
  with k have mk: "makes ! k = None" by simp
  with i(2) \<open>k \<noteq> i\<close> have "i < k" by (metis linorder_neqE_nat)
  with kj have "j \<noteq> i" by simp
  moreover have "makes ! j = None"
    using assms(1) kj j mk by (auto simp: taken_in_order_def)
  ultimately show "makes[i := Some b] ! j = None" by simp
qed

lemma fill_last_slot:
  assumes "taken_in_order makes" and "findIndex_null makes = Some i"
    and "None \<notin> set (makes[i := Some b])"
  shows "Suc i = length makes"
proof (rule ccontr)
  assume n: "Suc i \<noteq> length makes"
  from assms(2) have i: "i < length makes" "makes ! i = None"
    by (auto simp: findIndex_null_Some)
  with n have s: "Suc i < length makes" by simp
  with assms(1) i(2) have "makes ! Suc i = None"
    by (auto simp: taken_in_order_def)
  then have "makes[i := Some b] ! Suc i = None" by simp
  with s have "None \<in> set (makes[i := Some b])"
    by (metis length_list_update nth_mem)
  with assms(3) show False by simp
qed

subsection \<open>Updating association lists\<close>

lemma set_update_subset: "set (AList.update k v al) \<subseteq> insert (k, v) (set al)"
  by (induction al) auto

lemma keys_update_same:
  "map_of al k = Some v \<Longrightarrow> fst ` set (AList.update k v' al) = fst ` set al"
  by (auto simp: dom_update dest: map_of_SomeD intro: rev_image_eqI)

lemma map_of_overtime:
  "map_of (map (\<lambda>(id', atts). (id', atts @ [None])) al) k =
     map_option (\<lambda>atts. atts @ [None]) (map_of al k)"
  by (induction al) auto

lemma keys_overtime:
  "fst ` set (map (\<lambda>(id', atts). (id', atts @ [None])) al) = fst ` set al"
  by (induction al) auto

lemma keys_new_round:
  "fst ` set (foldl (\<lambda>all player. AList.update (player_id player) v all) al ps) =
     fst ` set al \<union> player_id ` set ps"
  by (induction ps arbitrary: al) (auto simp: dom_update)

lemma values_new_round:
  "(k, x) \<in> set (foldl (\<lambda>all player. AList.update (player_id player) v all) al ps) \<Longrightarrow>
     (k, x) \<in> set al \<or> x = v"
proof (induction ps arbitrary: al)
  case Nil
  then show ?case by simp
next
  case (Cons p ps)
  from Cons.IH [OF Cons.prems [simplified]] show ?case
    using set_update_subset [of "player_id p" v al] by auto
qed

lemma map_of_new_round:
  "p \<in> set ps \<Longrightarrow>
     map_of (foldl (\<lambda>all player. AList.update (player_id player) v all) al ps) (player_id p) = Some v"
proof (induction ps arbitrary: al)
  case Nil
  then show ?case by simp
next
  case (Cons q ps)
  show ?case
  proof (cases "p \<in> set ps")
    case True
    then show ?thesis using Cons.IH by simp
  next
    case False
    with Cons.prems have "p = q" by simp
    have "map_of (foldl (\<lambda>all player. AList.update (player_id player) v all) al' ps) k = Some v"
      if "map_of al' k = Some v" for al' k
      using that by (induction ps arbitrary: al') (auto simp: update_conv')
    then show ?thesis using \<open>p = q\<close> by (simp add: update_conv')
  qed
qed

subsection \<open>The recipe\<close>

lemma set_makes_simps [simp]:
  "players (set_makes g r k v) = players g"
  "activeRound (set_makes g r k v) = activeRound g"
  "game_winner (set_makes g r k v) = game_winner g"
  "bestOf (set_makes g r k v) = bestOf g"
  "game_attempts (set_makes g r k v) = game_attempts g"
  "rounds (set_makes g r k v) =
     (rounds g)[activeRound g := r\<lparr>attempts := AList.update k v (attempts r)\<rparr>]"
  by (simp_all add: set_makes_def)

lemma winsToFinish_set_makes [simp]: "winsToFinish (set_makes g r k v) = winsToFinish g"
  by (simp add: winsToFinish_def)

lemma getActiveRound_Inr:
  "getActiveRound g = Inr r \<longleftrightarrow> activeRound g < length (rounds g) \<and> r = rounds g ! activeRound g"
  by (auto simp: getActiveRound_def)

lemma getActivePlayer_active:
  "getActivePlayer g = Inr p \<Longrightarrow> activeRound g < length (rounds g)"
  by (auto simp: getActivePlayer_def getActiveRound_def split: if_splits)

lemma getActivePlayer_order:
  "getActivePlayer g = Inr p \<Longrightarrow> order (rounds g ! activeRound g) \<noteq> []"
  by (auto simp: getActivePlayer_def getActiveRound_def split: if_splits)

lemma getActivePlayer_roster:
  "getActivePlayer g = Inr p \<Longrightarrow> p \<in> set (players g)"
  by (auto simp: getActivePlayer_def getActiveRound_def find_Some_iff split: if_splits option.splits)

lemma recipe_simulate:
  assumes "getActivePlayer g = Inr p"
  shows "recipe rnd g simulate =
     (if controlled p then Inr None
      else case map_of (attempts (rounds g ! activeRound g)) (player_id p) of
             None \<Rightarrow> Inl PlayerNotInRound
           | Some makes \<Rightarrow>
               Inr (Some (set_makes g (rounds g ! activeRound g) (player_id p)
                            (simulate_loop rnd (percentage p) 0 makes), True)))"
  using assms getActivePlayer_active [OF assms]
  by (simp add: recipe_def getActiveRound_def)

lemma recipe_shot:
  assumes "getActivePlayer g = Inr p" and "t \<noteq> simulate"
  shows "recipe rnd g t =
     (if \<not> controlled p then Inr None
      else case map_of (attempts (rounds g ! activeRound g)) (player_id p) of
             None \<Rightarrow> Inl PlayerNotInRound
           | Some makes \<Rightarrow>
               (case findIndex_null makes of
                  None \<Rightarrow> Inl NoMoreMakes
                | Some nextMake \<Rightarrow>
                    Inr (Some (set_makes g (rounds g ! activeRound g) (player_id p)
                                 (makes[nextMake := Some (t = make)]),
                               Suc nextMake = length makes))))"
  using assms getActivePlayer_active [OF assms(1)]
  by (cases t) (auto simp: recipe_def getActiveRound_def split: option.splits)

lemma recipe_raises_lookup:
  "getActivePlayer g = Inl e \<Longrightarrow> recipe rnd g t = Inl e"
  by (auto simp: recipe_def getActivePlayer_def split: sum.splits)

text \<open>What a recipe that records an attempt has done.\<close>

lemma recipe_recorded:
  assumes "recipe rnd g t = Inr (Some (g1, b))"
  obtains p makes makes' where
    "getActivePlayer g = Inr p"
    "activeRound g < length (rounds g)"
    "map_of (attempts (rounds g ! activeRound g)) (player_id p) = Some makes"
    "g1 = set_makes g (rounds g ! activeRound g) (player_id p) makes'"
    "length makes' = length makes"
    "t = simulate \<longrightarrow> \<not> controlled p \<and> b \<and> makes' = simulate_loop rnd (percentage p) 0 makes"
    "t \<noteq> simulate \<longrightarrow> controlled p \<and>
       (\<exists>i. findIndex_null makes = Some i \<and> makes' = makes[i := Some (t = make)] \<and>
            b = (Suc i = length makes))"
proof -
  from assms obtain p where p: "getActivePlayer g = Inr p"
    by (cases "getActivePlayer g") (auto simp: recipe_raises_lookup)
  note ar = getActivePlayer_active [OF p]
  show thesis
  proof (cases "t = simulate")
    case True
    with assms p obtain makes where
      "map_of (attempts (rounds g ! activeRound g)) (player_id p) = Some makes"
      "\<not> controlled p" "b"
      "g1 = set_makes g (rounds g ! activeRound g) (player_id p)
              (simulate_loop rnd (percentage p) 0 makes)"
      by (auto simp: recipe_simulate split: if_splits option.splits)
    with p ar True show thesis
      by (intro that [of p makes "simulate_loop rnd (percentage p) 0 makes"]) simp_all
  next
    case False
    with assms p obtain makes i where
      "map_of (attempts (rounds g ! activeRound g)) (player_id p) = Some makes"
      "controlled p" "findIndex_null makes = Some i"
      "b = (Suc i = length makes)"
      "g1 = set_makes g (rounds g ! activeRound g) (player_id p) (makes[i := Some (t = make)])"
      by (auto simp: recipe_shot split: if_splits option.splits)
    with p ar False show thesis
      by (intro that [of p makes "makes[i := Some (t = make)]"]) simp_all
  qed
qed

subsection \<open>The cases of endRound\<close>

lemma checkWinners_eq:
  "activeRound g < length (rounds g) \<Longrightarrow>
   checkWinners g =
     Inr (if hasAttemptsLeft (rounds g ! activeRound g) then []
          else leaders (rounds g ! activeRound g))"
  by (auto simp: checkWinners_def getActiveRound_def checkWinners_loop_leaders
      hasAttemptsLeft_iff intro!: checkWinners_loop_pending)

lemma endRound_pending:
  assumes "activeRound g < length (rounds g)"
    and "hasAttemptsLeft (rounds g ! activeRound g)"
  shows "endRound uuid g = Inr (passed g)"
  using assms
  by (simp add: endRound_def checkWinners_eq getActiveRound_def endRound_turn_def passed_def Let_def)

lemma endRound_tie:
  assumes "activeRound g < length (rounds g)"
    and "\<not> hasAttemptsLeft (rounds g ! activeRound g)"
    and "2 \<le> length (leaders (rounds g ! activeRound g))"
  shows "endRound uuid g = Inr (extended g)"
  using assms
  by (simp add: endRound_def checkWinners_eq getActiveRound_def overtime_def extended_def)

lemma endRound_single:
  assumes "activeRound g < length (rounds g)"
    and "\<not> hasAttemptsLeft (rounds g ! activeRound g)"
    and "leaders (rounds g ! activeRound g) = [w]"
  shows "endRound uuid g =
     (case checkGameOver (decided g w) of
        Inl e \<Rightarrow> Inl e
      | Inr (True, game2) \<Rightarrow> Inr game2
      | Inr (False, game2) \<Rightarrow>
          Inr (endRound_turn (activeRound g) (createNextRound uuid game2)))"
  using assms
  by (simp add: endRound_def checkWinners_eq getActiveRound_def decided_def Let_def)

lemma endRound_nobody:
  assumes "Suc (activeRound g) = length (rounds g)"
    and "\<not> hasAttemptsLeft (rounds g ! activeRound g)"
    and "leaders (rounds g ! activeRound g) = []"
  shows "endRound uuid g = Inr g"
  using assms
  by (simp add: endRound_def checkWinners_eq getActiveRound_def endRound_turn_def Let_def)

lemma checkGameOver_cases:
  "checkGameOver g =
     (case checkGameOver_loop (rounds g) Map.empty (winsToFinish g) of
        None \<Rightarrow> Inr (False, g)
      | Some w \<Rightarrow>
          (case find (\<lambda>player. player_id player = w) (players g) of
             None \<Rightarrow> Inl WinnerNotFound
           | Some player \<Rightarrow> Inr (True, g\<lparr>game_winner := Some player\<rparr>)))"
  by (simp add: checkGameOver_def)

lemma find_roster:
  "w \<in> player_id ` set ps \<Longrightarrow> \<exists>p. find (\<lambda>player. player_id player = w) ps = Some p \<and> player_id p = w"
  by (induction ps) auto

lemma checkGameOver_loop_winner:
  "checkGameOver_loop rs m n = Some w \<Longrightarrow> \<exists>r \<in> set rs. winner r = Some w"
  by (induction rs m n rule: checkGameOver_loop.induct) (auto split: option.splits if_splits simp: Let_def)

lemma decided_simps [simp]:
  "players (decided g w) = players g"
  "activeRound (decided g w) = activeRound g"
  "game_winner (decided g w) = game_winner g"
  "bestOf (decided g w) = bestOf g"
  "game_attempts (decided g w) = game_attempts g"
  "length (rounds (decided g w)) = length (rounds g)"
  "winsToFinish (decided g w) = winsToFinish g"
  by (simp_all add: decided_def winsToFinish_def)

lemma extended_simps [simp]:
  "players (extended g) = players g"
  "activeRound (extended g) = activeRound g"
  "game_winner (extended g) = game_winner g"
  "bestOf (extended g) = bestOf g"
  "game_attempts (extended g) = game_attempts g"
  "length (rounds (extended g)) = length (rounds g)"
  "winsToFinish (extended g) = winsToFinish g"
  by (simp_all add: extended_def winsToFinish_def)

lemma passed_simps [simp]:
  "players (passed g) = players g"
  "activeRound (passed g) = activeRound g"
  "game_winner (passed g) = game_winner g"
  "bestOf (passed g) = bestOf g"
  "game_attempts (passed g) = game_attempts g"
  "length (rounds (passed g)) = length (rounds g)"
  "winsToFinish (passed g) = winsToFinish g"
  by (simp_all add: passed_def winsToFinish_def)

lemma resting_simps [simp]:
  "attempts (resting r) = attempts r" "winner (resting r) = winner r"
  "order (resting r) = order r"
  by (simp_all add: resting_def)

lemma Round_activePlayer_same: "r\<lparr>activePlayer := activePlayer r\<rparr> = r"
  by simp

lemma createNextRound_simps [simp]:
  "players (createNextRound uuid g) = players g"
  "game_winner (createNextRound uuid g) = game_winner g"
  "bestOf (createNextRound uuid g) = bestOf g"
  "game_attempts (createNextRound uuid g) = game_attempts g"
  "activeRound (createNextRound uuid g) = length (rounds g)"
  "length (rounds (createNextRound uuid g)) = Suc (length (rounds g))"
  by (simp_all add: createNextRound_def Let_def)

lemma createNextRound_rounds:
  "Suc ar = length (rounds g) \<Longrightarrow>
   rounds (createNextRound uuid g) =
     rounds g @
       [\<lparr>round_id = uuid,
         round_name = ''Round #'' @ decimal (length (rounds g) + 1),
         order = rev (order (rounds g ! ar)),
         attempts =
           foldl (\<lambda>all player.
                    AList.update (player_id player) (replicate (game_attempts g) None) all)
             [] (players g),
         activePlayer = 0,
         winner = None\<rparr>]"
proof -
  assume a: "Suc ar = length (rounds g)"
  then have "0 < length (rounds g)" "length (rounds g) - 1 = ar" by auto
  then show ?thesis by (simp add: createNextRound_def Let_def)
qed

lemma endRound_turn_simps [simp]:
  "players (endRound_turn ar g) = players g"
  "game_winner (endRound_turn ar g) = game_winner g"
  "bestOf (endRound_turn ar g) = bestOf g"
  "game_attempts (endRound_turn ar g) = game_attempts g"
  "length (rounds (endRound_turn ar g)) = length (rounds g)"
  by (simp_all add: endRound_turn_def Let_def)

lemma endRound_turn_settled:
  assumes "\<not> hasAttemptsLeft (rounds G ! ar)" and "Suc ar < length (rounds G)"
    and "activeRound G = Suc ar"
  shows "rounds (endRound_turn ar G) = (rounds G)[ar := resting (rounds G ! ar)]"
    and "activeRound (endRound_turn ar G) = Suc ar"
proof -
  show "rounds (endRound_turn ar G) = (rounds G)[ar := resting (rounds G ! ar)]"
  proof (cases "Suc (activePlayer (rounds G ! ar)) = length (order (rounds G ! ar))")
    case True
    with assms show ?thesis by (simp add: endRound_turn_def Let_def resting_def)
  next
    case False
    then have "resting (rounds G ! ar) = rounds G ! ar" by (simp add: resting_def)
    with False assms show ?thesis by (simp add: endRound_turn_def Let_def)
  qed
  show "activeRound (endRound_turn ar G) = Suc ar"
    using assms by (simp add: endRound_turn_def Let_def)
qed

lemma next_round_rounds:
  assumes "Suc (activeRound g) = length (rounds g)"
    and "\<not> hasAttemptsLeft (rounds g ! activeRound g)"
  shows "rounds (endRound_turn (activeRound g) (createNextRound uuid g)) =
           (rounds g)[activeRound g := resting (rounds g ! activeRound g)] @
           [\<lparr>round_id = uuid,
             round_name = ''Round #'' @ decimal (length (rounds g) + 1),
             order = rev (order (rounds g ! activeRound g)),
             attempts =
               foldl (\<lambda>all player.
                        AList.update (player_id player) (replicate (game_attempts g) None) all)
                 [] (players g),
             activePlayer = 0,
             winner = None\<rparr>]"
    and "activeRound (endRound_turn (activeRound g) (createNextRound uuid g)) = length (rounds g)"
proof -
  define G where "G = createNextRound uuid g"
  define ar where "ar = activeRound g"
  define new where "new = \<lparr>round_id = uuid,
             round_name = ''Round #'' @ decimal (length (rounds g) + 1),
             order = rev (order (rounds g ! ar)),
             attempts =
               foldl (\<lambda>all player.
                        AList.update (player_id player) (replicate (game_attempts g) None) all)
                 [] (players g),
             activePlayer = 0,
             winner = None\<rparr>"
  have len: "Suc ar = length (rounds g)" using assms(1) by (simp add: ar_def)
  then have lt: "ar < length (rounds g)" by simp
  have rs: "rounds G = rounds g @ [new]"
    unfolding G_def new_def by (rule createNextRound_rounds [OF len])
  have nth: "rounds G ! ar = rounds g ! ar" using lt by (simp add: rs nth_append)
  have 1: "\<not> hasAttemptsLeft (rounds G ! ar)"
    unfolding nth using assms(2) by (simp add: ar_def)
  have 2: "Suc ar < length (rounds G)" using len by (simp add: rs)
  have 3: "activeRound G = Suc ar" using len by (simp add: G_def)
  have "rounds (endRound_turn ar G) = (rounds G)[ar := resting (rounds G ! ar)]"
    by (rule endRound_turn_settled(1) [OF 1 2 3])
  also have "\<dots> = (rounds g)[ar := resting (rounds g ! ar)] @ [new]"
    unfolding nth using lt by (simp add: rs list_update_append1)
  finally show "rounds (endRound_turn (activeRound g) (createNextRound uuid g)) =
           (rounds g)[activeRound g := resting (rounds g ! activeRound g)] @
           [\<lparr>round_id = uuid,
             round_name = ''Round #'' @ decimal (length (rounds g) + 1),
             order = rev (order (rounds g ! activeRound g)),
             attempts =
               foldl (\<lambda>all player.
                        AList.update (player_id player) (replicate (game_attempts g) None) all)
                 [] (players g),
             activePlayer = 0,
             winner = None\<rparr>]"
    unfolding G_def ar_def new_def .
  show "activeRound (endRound_turn (activeRound g) (createNextRound uuid g)) = length (rounds g)"
    using endRound_turn_settled(2) [OF 1 2 3] len unfolding G_def ar_def by simp
qed

subsection \<open>The shape of a started match is kept\<close>

lemma round_okI:
  assumes "fst ` set (attempts r) = ids"
    and "\<And>k v k' v'. (k, v) \<in> set (attempts r) \<Longrightarrow> (k', v') \<in> set (attempts r) \<Longrightarrow>
           length v = length v'"
    and "\<And>k v. (k, v) \<in> set (attempts r) \<Longrightarrow> taken_in_order v"
    and "\<And>w. winner r = Some w \<Longrightarrow> w \<in> ids"
  shows "round_ok ids r"
  unfolding round_ok_def using assms by blast

lemma round_ok_keys: "round_ok ids r \<Longrightarrow> fst ` set (attempts r) = ids"
  by (simp add: round_ok_def)

lemma round_ok_length:
  "round_ok ids r \<Longrightarrow> (k, v) \<in> set (attempts r) \<Longrightarrow> (k', v') \<in> set (attempts r) \<Longrightarrow>
     length v = length v'"
  unfolding round_ok_def by blast

lemma round_ok_order:
  "round_ok ids r \<Longrightarrow> (k, v) \<in> set (attempts r) \<Longrightarrow> taken_in_order v"
  unfolding round_ok_def by blast

lemma round_ok_winner: "round_ok ids r \<Longrightarrow> winner r = Some w \<Longrightarrow> w \<in> ids"
  unfolding round_ok_def by blast

lemma round_ok_makes:
  assumes ok: "round_ok ids r" and m: "map_of (attempts r) k = Some makes"
    and len: "length makes' = length makes" and ord: "taken_in_order makes'"
  shows "round_ok ids (r\<lparr>attempts := AList.update k makes' (attempts r)\<rparr>)"
proof (rule round_okI)
  have old: "(k, makes) \<in> set (attempts r)" using m by (rule map_of_SomeD)
  have sub: "x \<in> set (AList.update k makes' (attempts r)) \<Longrightarrow>
      x = (k, makes') \<or> x \<in> set (attempts r)" for x
    using set_update_subset [of k makes' "attempts r"] by auto
  show "fst ` set (attempts (r\<lparr>attempts := AList.update k makes' (attempts r)\<rparr>)) = ids"
    using m round_ok_keys [OF ok] by (simp add: keys_update_same)
  have l: "length v = length makes"
    if "(j, v) \<in> set (AList.update k makes' (attempts r))" for j v
    using sub [OF that] len round_ok_length [OF ok _ old] by auto
  show "length v = length v'"
    if "(j, v) \<in> set (attempts (r\<lparr>attempts := AList.update k makes' (attempts r)\<rparr>))"
      and "(j', v') \<in> set (attempts (r\<lparr>attempts := AList.update k makes' (attempts r)\<rparr>))"
    for j v j' v'
    using that l by simp
  show "taken_in_order v"
    if "(j, v) \<in> set (attempts (r\<lparr>attempts := AList.update k makes' (attempts r)\<rparr>))" for j v
    using sub [of "(j, v)"] that ord round_ok_order [OF ok] by auto
  show "w \<in> ids" if "winner (r\<lparr>attempts := AList.update k makes' (attempts r)\<rparr>) = Some w" for w
    using that round_ok_winner [OF ok] by simp
qed

lemma round_ok_overtime:
  assumes ok: "round_ok ids r"
  shows "round_ok ids (r\<lparr>attempts := map (\<lambda>(id', atts). (id', atts @ [None])) (attempts r)\<rparr>)"
proof (rule round_okI)
  let ?al = "map (\<lambda>(id', atts). (id', atts @ [None])) (attempts r)"
  have el: "\<exists>v0. (j, v0) \<in> set (attempts r) \<and> v = v0 @ [None]" if "(j, v) \<in> set ?al" for j v
    using that by auto
  show "fst ` set (attempts (r\<lparr>attempts := ?al\<rparr>)) = ids"
    using round_ok_keys [OF ok] keys_overtime [of "attempts r"] by simp
  show "length v = length v'"
    if "(j, v) \<in> set (attempts (r\<lparr>attempts := ?al\<rparr>))"
      and "(j', v') \<in> set (attempts (r\<lparr>attempts := ?al\<rparr>))" for j v j' v'
  proof -
    from that have "(j, v) \<in> set ?al" "(j', v') \<in> set ?al" by simp_all
    then obtain v0 v0' where "(j, v0) \<in> set (attempts r)" "v = v0 @ [None]"
      "(j', v0') \<in> set (attempts r)" "v' = v0' @ [None]"
      using el by blast
    then show ?thesis using round_ok_length [OF ok, of j v0 j' v0'] by simp
  qed
  show "taken_in_order v" if "(j, v) \<in> set (attempts (r\<lparr>attempts := ?al\<rparr>))" for j v
  proof -
    from that have "(j, v) \<in> set ?al" by simp
    then obtain v0 where "(j, v0) \<in> set (attempts r)" "v = v0 @ [None]"
      using el by blast
    then show ?thesis using round_ok_order [OF ok, of j v0] by (simp add: taken_in_order_snoc)
  qed
  show "w \<in> ids" if "winner (r\<lparr>attempts := ?al\<rparr>) = Some w" for w
    using that round_ok_winner [OF ok] by simp
qed

lemma round_ok_decided: "round_ok ids r \<Longrightarrow> w \<in> ids \<Longrightarrow> round_ok ids (r\<lparr>winner := Some w\<rparr>)"
  by (simp add: round_ok_def)

lemma round_ok_activePlayer: "round_ok ids r \<Longrightarrow> round_ok ids (r\<lparr>activePlayer := n\<rparr>)"
  by (simp add: round_ok_def)

lemma round_ok_resting: "round_ok ids r \<Longrightarrow> round_ok ids (resting r)"
  by (simp add: round_ok_def)

lemma round_ok_new:
  "round_ok (player_id ` set (ps :: Player list))
     \<lparr>round_id = u, round_name = nm, order = ord,
      attempts = foldl (\<lambda>all player. AList.update (player_id player) (replicate n None) all) [] ps,
      activePlayer = 0, winner = None\<rparr>"
proof (rule round_okI)
  let ?al = "foldl (\<lambda>all player. AList.update (player_id player)
                (replicate n (None :: attempt)) all) [] ps"
  let ?r = "\<lparr>round_id = u, round_name = nm, order = ord, attempts = ?al,
      activePlayer = 0, winner = None\<rparr>"
  have v: "v = replicate n None" if "(k, v) \<in> set ?al" for k v
    using values_new_round [OF that] by simp
  have a: "attempts ?r = ?al" by simp
  show "fst ` set (attempts ?r) = player_id ` set ps"
    unfolding a by (simp add: keys_new_round)
  show "length v = length v'" if "(k, v) \<in> set (attempts ?r)" "(k', v') \<in> set (attempts ?r)"
    for k v k' v'
    using that v [of k v] v [of k' v'] unfolding a by simp
  show "taken_in_order v" if "(k, v) \<in> set (attempts ?r)" for k v
    using that v [of k v] unfolding a by (simp add: taken_in_order_replicate)
  show "w \<in> player_id ` set ps" if "winner ?r = Some w" for w
    using that by simp
qed

lemma in_set_updateD: "r \<in> set (xs[i := y]) \<Longrightarrow> r = y \<or> r \<in> set xs"
  using set_update_subset_insert [of xs i y] by auto

lemma game_ok_active:
  assumes "game_ok g"
  shows "activeRound g < length (rounds g)"
    and "round_ok (player_id ` set (players g)) (rounds g ! activeRound g)"
proof -
  show "activeRound g < length (rounds g)" using assms by (simp add: game_ok_def)
  then show "round_ok (player_id ` set (players g)) (rounds g ! activeRound g)"
    using assms by (simp add: game_ok_def)
qed

lemma game_okI:
  assumes "Suc (activeRound g) = length (rounds g)"
    and "\<And>r. r \<in> set (rounds g) \<Longrightarrow> round_ok (player_id ` set (players g)) r"
  shows "game_ok g"
  using assms by (simp add: game_ok_def)

lemma game_ok_round: "game_ok g \<Longrightarrow> r \<in> set (rounds g) \<Longrightarrow> round_ok (player_id ` set (players g)) r"
  by (simp add: game_ok_def)

lemma game_ok_update:
  assumes "game_ok g" and "round_ok (player_id ` set (players g)) r'"
    and "players g' = players g" and "activeRound g' = activeRound g"
    and "rounds g' = (rounds g)[i := r']"
  shows "game_ok g'"
proof (rule game_okI)
  show "Suc (activeRound g') = length (rounds g')"
    using assms by (simp add: game_ok_def)
  show "round_ok (player_id ` set (players g')) r" if "r \<in> set (rounds g')" for r
  proof -
    from that have "r = r' \<or> r \<in> set (rounds g)"
      using set_update_subset_insert [of "rounds g" i r'] assms(5) by auto
    then show ?thesis using assms(1,2,3) game_ok_round by auto
  qed
qed

lemma game_ok_recorded:
  assumes ok: "game_ok g" and rec: "recipe rnd g t = Inr (Some (g1, b))"
  shows "game_ok g1"
proof -
  from rec obtain p :: Player and makes makes' where
    m: "map_of (attempts (rounds g ! activeRound g)) (player_id p) = Some makes"
    and g1: "g1 = set_makes g (rounds g ! activeRound g) (player_id p) makes'"
    and len: "length makes' = length makes"
    and sim: "t = simulate \<longrightarrow> \<not> controlled p \<and> b \<and> makes' = simulate_loop rnd (percentage p) 0 makes"
    and shot: "t \<noteq> simulate \<longrightarrow> controlled p \<and>
       (\<exists>i. findIndex_null makes = Some i \<and> makes' = makes[i := Some (t = make)] \<and>
            b = (Suc i = length makes))"
    by (rule recipe_recorded)
  note rok = game_ok_active(2) [OF ok]
  have "taken_in_order makes" using round_ok_order [OF rok map_of_SomeD [OF m]] .
  then have "taken_in_order makes'"
    using sim shot by (cases "t = simulate")
      (auto simp: taken_in_order_filled simulate_loop_filled taken_in_order_fill)
  then have rnew: "round_ok (player_id ` set (players g))
      ((rounds g ! activeRound g)\<lparr>attempts := AList.update (player_id p) makes'
          (attempts (rounds g ! activeRound g))\<rparr>)"
    using rok m len by (intro round_ok_makes)
  show ?thesis by (rule game_ok_update [OF ok rnew]) (simp_all add: g1)
qed

lemma game_ok_passed: "game_ok g \<Longrightarrow> game_ok (passed g)"
  by (rule game_ok_update [where i = "activeRound g"
        and r' = "(rounds g ! activeRound g)\<lparr>activePlayer :=
                 (activePlayer (rounds g ! activeRound g) + 1) mod
                   length (order (rounds g ! activeRound g))\<rparr>"])
     (simp_all add: round_ok_activePlayer game_ok_active passed_def)

lemma game_ok_extended: "game_ok g \<Longrightarrow> game_ok (extended g)"
  by (rule game_ok_update [where i = "activeRound g"
        and r' = "(rounds g ! activeRound g)
              \<lparr>attempts := map (\<lambda>(id', atts). (id', atts @ [None]))
                               (attempts (rounds g ! activeRound g))\<rparr>"])
     (simp_all add: round_ok_overtime game_ok_active extended_def)

lemma game_ok_decided:
  "game_ok g \<Longrightarrow> w \<in> player_id ` set (players g) \<Longrightarrow> game_ok (decided g w)"
  by (rule game_ok_update [where i = "activeRound g"
        and r' = "(rounds g ! activeRound g)\<lparr>winner := Some w\<rparr>"])
     (simp_all add: round_ok_decided game_ok_active decided_def)

lemma game_ok_game_winner: "game_ok g \<Longrightarrow> game_ok (g\<lparr>game_winner := x\<rparr>)"
  by (simp add: game_ok_def)

lemma game_ok_next:
  assumes ok: "game_ok g" and full: "\<not> hasAttemptsLeft (rounds g ! activeRound g)"
  shows "game_ok (endRound_turn (activeRound g) (createNextRound uuid g))"
proof (rule game_okI)
  let ?g' = "endRound_turn (activeRound g) (createNextRound uuid g)"
  have len: "Suc (activeRound g) = length (rounds g)" using ok by (simp add: game_ok_def)
  note rs = next_round_rounds [OF len full, of uuid]
  show "Suc (activeRound ?g') = length (rounds ?g')"
    by (simp add: rs(2))
  show "round_ok (player_id ` set (players ?g')) r" if "r \<in> set (rounds ?g')" for r
  proof -
    define new where "new = last (rounds ?g')"
    have rs': "rounds ?g' = (rounds g)[activeRound g := resting (rounds g ! activeRound g)] @ [new]"
      unfolding new_def rs(1) by simp
    have newok: "round_ok (player_id ` set (players g)) new"
      unfolding new_def rs(1) by (simp add: round_ok_new)
    from that have "r = new \<or> r \<in> set ((rounds g)[activeRound g := resting (rounds g ! activeRound g)])"
      unfolding rs' by simp
    then consider "r = new" | "r = resting (rounds g ! activeRound g)" | "r \<in> set (rounds g)"
      using in_set_updateD by fastforce
    then show ?thesis
    proof cases
      case 1
      then show ?thesis using newok by simp
    next
      case 2
      then show ?thesis using game_ok_active(2) [OF ok] by (simp add: round_ok_resting)
    next
      case 3
      then show ?thesis using game_ok_round [OF ok] by simp
    qed
  qed
qed

lemma list_cases3:
  assumes "xs = [] \<Longrightarrow> P" and "\<And>x. xs = [x] \<Longrightarrow> P" and "2 \<le> length xs \<Longrightarrow> P"
  shows P
proof (cases xs)
  case Nil
  then show ?thesis using assms(1) by simp
next
  case (Cons x ys)
  then show ?thesis using assms(2,3) by (cases ys) auto
qed

lemma leaders_keys: "w \<in> set (leaders r) \<Longrightarrow> w \<in> fst ` set (attempts r)"
  by (auto simp: leaders_def)

lemma endRound_game_ok:
  assumes ok: "game_ok g"
  shows "\<exists>g'. endRound uuid g = Inr g' \<and> game_ok g'"
proof -
  note ar = game_ok_active [OF ok]
  have len: "Suc (activeRound g) = length (rounds g)" using ok by (simp add: game_ok_def)
  show ?thesis
  proof (cases "hasAttemptsLeft (rounds g ! activeRound g)")
    case True
    then show ?thesis using endRound_pending [OF ar(1) True] game_ok_passed [OF ok] by simp
  next
    case False
    consider (nobody) "leaders (rounds g ! activeRound g) = []"
      | (single) w where "leaders (rounds g ! activeRound g) = [w]"
      | (tie) "2 \<le> length (leaders (rounds g ! activeRound g))"
      by (rule list_cases3)
    then show ?thesis
    proof cases
      case nobody
      then show ?thesis using endRound_nobody [OF len False] ok by simp
    next
      case tie
      then show ?thesis using endRound_tie [OF ar(1) False] game_ok_extended [OF ok] by simp
    next
      case (single w)
      then have "w \<in> fst ` set (attempts (rounds g ! activeRound g))"
        using leaders_keys [of w] by simp
      then have w: "w \<in> player_id ` set (players g)"
        using round_ok_keys [OF ar(2)] by simp
      note dok = game_ok_decided [OF ok w]
      have full: "\<not> hasAttemptsLeft (rounds (decided g w) ! activeRound (decided g w))"
        using False ar(1) by (simp add: decided_def hasAttemptsLeft_def)
      show ?thesis
      proof (cases "checkGameOver_loop (rounds (decided g w)) Map.empty (winsToFinish g)")
        case None
        then have "endRound uuid g =
            Inr (endRound_turn (activeRound g) (createNextRound uuid (decided g w)))"
          using endRound_single [OF ar(1) False single] by (simp add: checkGameOver_cases)
        then show ?thesis using game_ok_next [OF dok full] by simp
      next
        case (Some w')
        then obtain r where "r \<in> set (rounds (decided g w))" "winner r = Some w'"
          using checkGameOver_loop_winner by blast
        then have "w' \<in> player_id ` set (players g)"
          using game_ok_round [OF dok] round_ok_winner by fastforce
        then obtain p where "find (\<lambda>player. player_id player = w') (players g) = Some p"
          using find_roster by blast
        then have "endRound uuid g = Inr (decided g w\<lparr>game_winner := Some p\<rparr>)"
          using endRound_single [OF ar(1) False single] Some by (simp add: checkGameOver_cases)
        then show ?thesis using game_ok_game_winner [OF dok] by simp
      qed
    qed
  qed
qed

lemma game_ok_start:
  "game_ok (createNextRound uuid (GAME gid\<lparr>players := ps, game_attempts := n, bestOf := b\<rparr>))"
  by (rule game_okI) (auto simp: createNextRound_def GAME_def round_ok_new)

lemma started_game_ok: "started g \<Longrightarrow> game_ok g"
proof (induction rule: started.induct)
  case (started_start uuid rnd gid ps n b g)
  then show ?case using game_ok_start by auto
next
  case (started_play g uuid rnd t g')
  show ?case
  proof (cases "recipe rnd g t")
    case (Inl e)
    with started_play show ?thesis by simp
  next
    case (Inr x)
    show ?thesis
    proof (cases x)
      case None
      with Inr started_play show ?thesis by simp
    next
      case (Some y)
      obtain g1 c where y: "y = (g1, c)" by (cases y)
      have g1: "game_ok g1" using game_ok_recorded [OF started_play.IH] Inr Some y by simp
      show ?thesis
      proof (cases c)
        case True
        then have "endRound uuid g1 = Inr g'" using started_play(2) Inr Some y by simp
        then show ?thesis using endRound_game_ok [OF g1, of uuid] by simp
      next
        case False
        then have "g' = g1" using started_play(2) Inr Some y by simp
        then show ?thesis using g1 by simp
      qed
    qed
  qed
qed

subsection \<open>The tallies of checkGameOver\<close>

lemma map_update_same: "f y = f (xs ! i) \<Longrightarrow> map f (xs[i := y]) = map f xs"
proof (induction xs arbitrary: i)
  case Nil
  then show ?case by simp
next
  case (Cons x xs)
  then show ?case by (cases i) auto
qed

lemma checkGameOver_loop_Cons:
  "checkGameOver_loop (r # rs) m n =
     (case winner r of
        None \<Rightarrow> checkGameOver_loop rs m n
      | Some w \<Rightarrow>
          if w = [] then checkGameOver_loop rs m n
          else if w \<in> set Object_prototype then checkGameOver_loop rs m n
          else if int (case m w of Some k \<Rightarrow> Suc k | None \<Rightarrow> 1) = n then Some w
          else checkGameOver_loop rs (m(w \<mapsto> (case m w of Some k \<Rightarrow> Suc k | None \<Rightarrow> 1))) n)"
  by (simp only: checkGameOver_loop.simps Let_def)

lemma checkGameOver_loop_winners:
  "map winner rs = map winner rs' \<Longrightarrow>
   checkGameOver_loop rs m n = checkGameOver_loop rs' m n"
proof (induction rs arbitrary: rs' m)
  case Nil
  then show ?case by simp
next
  case (Cons r rs)
  then obtain r' rs'' where rs': "rs' = r' # rs''" "winner r = winner r'"
    "map winner rs = map winner rs''"
    by (cases rs') auto
  show ?case
    unfolding rs'(1) checkGameOver_loop_Cons rs'(2) Cons.IH [OF rs'(3)] ..
qed

lemma checkGameOver_loop_append:
  "checkGameOver_loop (rs @ ys) m n =
     (case checkGameOver_loop rs m n of
        Some w \<Rightarrow> Some w
      | None \<Rightarrow> checkGameOver_loop ys (tally rs m) n)"
proof (induction rs arbitrary: m)
  case Nil
  then show ?case by simp
next
  case (Cons r rs)
  show ?case
    unfolding append_Cons checkGameOver_loop_Cons tally.simps Cons.IH
    by (simp split: option.splits)
qed

lemma tally_other:
  "(\<forall>r \<in> set rs. winner r \<noteq> Some w) \<Longrightarrow> tally rs m w = m w"
  by (induction rs m rule: tally.induct) (auto split: option.splits)

lemma wins_Cons:
  "wins w (r # rs) = (if winner r = Some w then Suc (wins w rs) else wins w rs)"
  by (simp add: wins_def)

lemma tally_wins:
  assumes "w \<noteq> []" and "w \<notin> set Object_prototype"
  shows "(case tally rs m w of Some k \<Rightarrow> Suc k | None \<Rightarrow> 1) =
     wins w rs + (case m w of Some k \<Rightarrow> Suc k | None \<Rightarrow> 1)"
proof (induction rs arbitrary: m)
  case Nil
  show ?case by (simp add: wins_def)
next
  case (Cons r rs)
  show ?case
  proof (cases "winner r")
    case None
    then show ?thesis using Cons.IH [of m] by (simp add: wins_Cons)
  next
    case (Some v)
    show ?thesis
    proof (cases "v = [] \<or> v \<in> set Object_prototype")
      case True
      then have "winner r \<noteq> Some w" using Some assms by auto
      moreover have "tally (r # rs) m = tally rs m" using Some True by auto
      ultimately show ?thesis using Cons.IH [of m] by (simp add: wins_Cons)
    next
      case False
      define m' where "m' = m(v \<mapsto> (case m v of Some k \<Rightarrow> Suc k | None \<Rightarrow> 1))"
      have t: "tally (r # rs) m = tally rs m'"
        using Some False by (simp add: m'_def)
      show ?thesis
      proof (cases "v = w")
        case True
        have "m' w = Some (case m w of Some k \<Rightarrow> Suc k | None \<Rightarrow> 1)"
          using True by (simp add: m'_def)
        then have "(case m' w of Some k \<Rightarrow> Suc k | None \<Rightarrow> 1) =
            Suc (case m w of Some k \<Rightarrow> Suc k | None \<Rightarrow> 1)"
          by simp
        moreover have "wins w (r # rs) = Suc (wins w rs)"
          using Some True by (simp add: wins_Cons)
        ultimately show ?thesis unfolding t using Cons.IH [of m'] by simp
      next
        case neq: False
        then have "m' w = m w" by (simp add: m'_def)
        moreover have "wins w (r # rs) = wins w rs"
          using Some neq by (simp add: wins_Cons)
        ultimately show ?thesis unfolding t using Cons.IH [of m'] by simp
      qed
    qed
  qed
qed

subsection \<open>The match winner of a started match\<close>

lemma set_makes_same:
  "map_of (attempts (rounds g ! activeRound g)) k = Some v \<Longrightarrow>
   set_makes g (rounds g ! activeRound g) k v = g"
  by (simp add: set_makes_def update_triv)

lemma decided_again:
  "winner (rounds g ! activeRound g) = Some w \<Longrightarrow> decided g w = g"
proof -
  assume a: "winner (rounds g ! activeRound g) = Some w"
  have "(rounds g ! activeRound g)\<lparr>winner := Some w\<rparr> = rounds g ! activeRound g"
    unfolding a [symmetric] by simp
  then show ?thesis by (simp add: decided_def)
qed

lemma game_winner_again: "game_winner g = Some p \<Longrightarrow> g\<lparr>game_winner := Some p\<rparr> = g"
proof -
  assume a: "game_winner g = Some p"
  show ?thesis unfolding a [symmetric] by simp
qed

lemma hasAttemptsLeft_attempts:
  "attempts r' = attempts r \<Longrightarrow> hasAttemptsLeft r' = hasAttemptsLeft r"
  by (simp add: hasAttemptsLeft_def)

lemma leaders_attempts: "attempts r' = attempts r \<Longrightarrow> leaders r' = leaders r"
  by (simp add: leaders_def)

lemma winners_set_makes:
  "map winner (rounds (set_makes g (rounds g ! activeRound g) k v)) = map winner (rounds g)"
  by (simp add: map_update_same)

lemma winners_passed: "map winner (rounds (passed g)) = map winner (rounds g)"
  by (simp add: passed_def map_update_same)

lemma winners_extended: "map winner (rounds (extended g)) = map winner (rounds g)"
  by (simp add: extended_def map_update_same)

lemma active_set_makes:
  "activeRound g < length (rounds g) \<Longrightarrow>
   rounds (set_makes g (rounds g ! activeRound g) k v) ! activeRound g =
     (rounds g ! activeRound g)\<lparr>attempts := AList.update k v (attempts (rounds g ! activeRound g))\<rparr>"
  by simp

lemma active_decided:
  "activeRound g < length (rounds g) \<Longrightarrow>
   rounds (decided g w) ! activeRound g = (rounds g ! activeRound g)\<lparr>winner := Some w\<rparr>"
  by (simp add: decided_def)

lemma active_passed:
  "activeRound g < length (rounds g) \<Longrightarrow>
   rounds (passed g) ! activeRound g =
     (rounds g ! activeRound g)\<lparr>activePlayer :=
        (activePlayer (rounds g ! activeRound g) + 1) mod length (order (rounds g ! activeRound g))\<rparr>"
  by (simp add: passed_def)

lemma active_extended:
  "activeRound g < length (rounds g) \<Longrightarrow>
   rounds (extended g) ! activeRound g =
     (rounds g ! activeRound g)\<lparr>attempts := map (\<lambda>(id', atts). (id', atts @ [None]))
        (attempts (rounds g ! activeRound g))\<rparr>"
  by (simp add: extended_def)

lemma over_ok_open:
  assumes "over_ok g" and "game_winner g = None"
    and "game_winner g' = None" and "bestOf g' = bestOf g"
    and "map winner (rounds g') = map winner (rounds g)"
    and "activeRound g' = activeRound g" and "activeRound g < length (rounds g)"
  shows "over_ok g'"
proof -
  have l: "length (rounds g') = length (rounds g)"
    using assms(5) by (metis length_map)
  have "winner (rounds g' ! activeRound g') = map winner (rounds g') ! activeRound g"
    using assms(6,7) l by simp
  also have "\<dots> = winner (rounds g ! activeRound g)"
    unfolding assms(5) using assms(7) by simp
  finally have w: "winner (rounds g' ! activeRound g') = None"
    using assms(1,2) by (simp add: over_ok_def)
  have "checkGameOver_loop (rounds g') Map.empty (winsToFinish g') =
        checkGameOver_loop (rounds g) Map.empty (winsToFinish g)"
    using checkGameOver_loop_winners [OF assms(5)] assms(4) by (simp add: winsToFinish_def)
  then show ?thesis using assms(1,2,3) w by (simp add: over_ok_def)
qed

lemma over_ok_recorded:
  assumes ok: "over_ok g" and w: "game_winner g = None"
    and rec: "recipe rnd g t = Inr (Some (g1, b))"
  shows "over_ok g1 \<and> game_winner g1 = None"
proof -
  from rec obtain p :: Player and makes :: "attempt list" and makes' where
    ar: "activeRound g < length (rounds g)"
    and g1: "g1 = set_makes g (rounds g ! activeRound g) (player_id p) makes'"
    by (rule recipe_recorded)
  have "over_ok g1"
    by (rule over_ok_open [OF ok w _ _ _ _ ar]) (simp_all add: g1 w map_update_same)
  then show ?thesis using w by (simp add: g1)
qed

lemma over_ok_endRound:
  assumes gok: "game_ok g" and ok: "over_ok g" and w: "game_winner g = None"
    and e: "endRound uuid g = Inr g'"
  shows "over_ok g'"
proof -
  note ar = game_ok_active [OF gok]
  have len: "Suc (activeRound g) = length (rounds g)" using gok by (simp add: game_ok_def)
  show ?thesis
  proof (cases "hasAttemptsLeft (rounds g ! activeRound g)")
    case True
    then have "g' = passed g" using endRound_pending [OF ar(1) True, of uuid] e by simp
    then show ?thesis
      using over_ok_open [OF ok w, of "passed g"] ar(1) w by (simp add: winners_passed)
  next
    case False
    consider (nobody) "leaders (rounds g ! activeRound g) = []"
      | (single) x where "leaders (rounds g ! activeRound g) = [x]"
      | (tie) "2 \<le> length (leaders (rounds g ! activeRound g))"
      by (rule list_cases3)
    then show ?thesis
    proof cases
      case nobody
      then show ?thesis using endRound_nobody [OF len False, of uuid] e ok by simp
    next
      case tie
      then have "g' = extended g" using endRound_tie [OF ar(1) False, of uuid] e by simp
      then show ?thesis
        using over_ok_open [OF ok w, of "extended g"] ar(1) w by (simp add: winners_extended)
    next
      case (single x)
      let ?d = "decided g x"
      have x: "x \<in> player_id ` set (players g)"
        using leaders_keys [of x "rounds g ! activeRound g"] single round_ok_keys [OF ar(2)]
        by simp
      note dok = game_ok_decided [OF gok x]
      have dact: "rounds ?d ! activeRound g = (rounds g ! activeRound g)\<lparr>winner := Some x\<rparr>"
        by (rule active_decided [OF ar(1)])
      have full: "\<not> hasAttemptsLeft (rounds ?d ! activeRound ?d)"
        using False by (simp add: dact hasAttemptsLeft_def)
      show ?thesis
      proof (cases "checkGameOver_loop (rounds ?d) Map.empty (winsToFinish g)")
        case None
        let ?g' = "endRound_turn (activeRound g) (createNextRound uuid ?d)"
        have g': "g' = ?g'"
          using endRound_single [OF ar(1) False single, of uuid] e None
          by (simp add: checkGameOver_cases)
        have dlen: "Suc (activeRound ?d) = length (rounds ?d)" using len by simp
        note rs = next_round_rounds [OF dlen full, of uuid]
        define new where "new = last (rounds ?g')"
        have rs': "rounds ?g' = (rounds ?d)[activeRound g := resting (rounds ?d ! activeRound g)] @ [new]"
          unfolding new_def using rs(1) by simp
        have nw: "winner new = None" unfolding new_def using rs(1) by simp
        have act: "activeRound ?g' = length (rounds g)" using rs(2) by simp
        have "rounds ?g' ! activeRound ?g' = new"
          unfolding act rs' by (simp add: nth_append)
        then have 1: "winner (rounds ?g' ! activeRound ?g') = None" using nw by simp
        have "map winner (rounds ?g') = map winner (rounds ?d @ [new])"
          unfolding rs' by (simp add: map_update_same)
        then have "checkGameOver_loop (rounds ?g') Map.empty (winsToFinish g) =
            checkGameOver_loop (rounds ?d @ [new]) Map.empty (winsToFinish g)"
          by (rule checkGameOver_loop_winners)
        also have "\<dots> = None"
          using None nw by (simp add: checkGameOver_loop_append)
        finally have 2: "checkGameOver_loop (rounds ?g') Map.empty (winsToFinish ?g') = None"
          by (simp add: winsToFinish_def)
        have "game_winner ?g' = None" using w by simp
        then show ?thesis unfolding g' using 1 2 by (simp add: over_ok_def)
      next
        case (Some y)
        then obtain r where "r \<in> set (rounds ?d)" "winner r = Some y"
          using checkGameOver_loop_winner by blast
        then have "y \<in> player_id ` set (players g)"
          using game_ok_round [OF dok] round_ok_winner by fastforce
        then obtain p where p: "find (\<lambda>player. player_id player = y) (players g) = Some p"
          using find_roster by blast
        have g': "g' = ?d\<lparr>game_winner := Some p\<rparr>"
          using endRound_single [OF ar(1) False single, of uuid] e Some p
          by (simp add: checkGameOver_cases)
        have a1: "activeRound g' < length (rounds g')" using ar(1) by (simp add: g')
        have act: "rounds g' ! activeRound g' = (rounds g ! activeRound g)\<lparr>winner := Some x\<rparr>"
          using dact by (simp add: g')
        have a2: "\<not> hasAttemptsLeft (rounds g' ! activeRound g')"
          using False by (simp add: act hasAttemptsLeft_def)
        have a3: "leaders (rounds g' ! activeRound g') = [x]"
          using single by (simp add: act leaders_def)
        have cw: "checkWinners g' = Inr [x]"
          using checkWinners_eq [OF a1] a2 a3 by simp
        have d: "decided g' x = g'"
          by (rule decided_again) (simp add: act)
        have cg: "checkGameOver g' = Inr (True, g')"
          using Some p game_winner_again [of g' p]
          by (simp add: checkGameOver_cases g' winsToFinish_def)
        have "endRound u g' = Inr g'" for u
          using endRound_single [OF a1 a2 a3, of u] by (simp add: d cg)
        then show ?thesis using cw by (simp add: over_ok_def g')
      qed
    qed
  qed
qed

lemma over_ok_start:
  "over_ok (createNextRound uuid (GAME gid\<lparr>players := ps, game_attempts := n, bestOf := b\<rparr>))"
  by (simp add: over_ok_def createNextRound_def GAME_def)

text \<open>Once the match has a winner, an action returns the state as it is or throws.\<close>

lemma game_over_fixed:
  assumes gok: "game_ok g" and ok: "over_ok g" and w: "game_winner g \<noteq> None"
  shows "gameReducer uuid rnd g (Play t) =
     (case getActivePlayer g of
        Inl e \<Rightarrow> Inl e
      | Inr p \<Rightarrow> if controlled p \<and> t \<noteq> simulate then Inl NoMoreMakes else Inr g)"
proof (cases "getActivePlayer g")
  case (Inl e)
  then show ?thesis by (simp add: recipe_raises_lookup)
next
  case (Inr p)
  note ar = game_ok_active [OF gok]
  from ok w obtain x where cw: "checkWinners g = Inr [x]" and idem: "endRound uuid g = Inr g"
    by (auto simp: over_ok_def)
  have full: "\<not> hasAttemptsLeft (rounds g ! activeRound g)"
    using cw checkWinners_eq [OF ar(1)] by (auto split: if_splits)
  have "player_id p \<in> fst ` set (attempts (rounds g ! activeRound g))"
    using getActivePlayer_roster [OF Inr] round_ok_keys [OF ar(2)] by simp
  then obtain makes where m: "map_of (attempts (rounds g ! activeRound g)) (player_id p) = Some makes"
    by (metis map_of_eq_None_iff not_Some_eq)
  have "(player_id p, makes) \<in> set (attempts (rounds g ! activeRound g))"
    using m by (rule map_of_SomeD)
  then have filled: "None \<notin> set makes"
    using full by (auto simp: hasAttemptsLeft_iff)
  show ?thesis
  proof (cases "t = simulate")
    case True
    show ?thesis
    proof (cases "controlled p")
      case True
      then show ?thesis using Inr \<open>t = simulate\<close> by (simp add: recipe_simulate)
    next
      case False
      then have "recipe rnd g simulate = Inr (Some (g, True))"
        using Inr m filled by (simp add: recipe_simulate simulate_loop_id set_makes_same)
      then show ?thesis using Inr False \<open>t = simulate\<close> idem by simp
    qed
  next
    case False
    show ?thesis
    proof (cases "controlled p")
      case True
      have "findIndex_null makes = None" using filled by (simp add: findIndex_null_None)
      then have "recipe rnd g t = Inl NoMoreMakes"
        using Inr m True False by (simp add: recipe_shot)
      then show ?thesis using Inr True False by simp
    next
      case c: False
      then have "recipe rnd g t = Inr None" using Inr False by (simp add: recipe_shot)
      then show ?thesis using Inr c by simp
    qed
  qed
qed

lemma started_over_ok: "started g \<Longrightarrow> over_ok g"
proof (induction rule: started.induct)
  case (started_start uuid rnd gid ps n b g)
  then show ?case using over_ok_start by auto
next
  case (started_play g uuid rnd t g')
  note gok = started_game_ok [OF started_play(1)]
  show ?case
  proof (cases "game_winner g = None")
    case False
    have "g' = g"
      using started_play(2) game_over_fixed [OF gok started_play.IH False, of uuid rnd t]
      by (auto split: sum.splits if_splits)
    then show ?thesis using started_play.IH by simp
  next
    case True
    show ?thesis
    proof (cases "recipe rnd g t")
      case (Inl e)
      with started_play show ?thesis by simp
    next
      case (Inr x)
      show ?thesis
      proof (cases x)
        case None
        with Inr started_play show ?thesis by simp
      next
        case (Some y)
        obtain g1 c where y: "y = (g1, c)" by (cases y)
        have rec: "recipe rnd g t = Inr (Some (g1, c))" using Inr Some y by simp
        note g1 = over_ok_recorded [OF started_play.IH True rec]
        note gok1 = game_ok_recorded [OF gok rec]
        show ?thesis
        proof (cases c)
          case True
          then have "endRound uuid g1 = Inr g'" using started_play(2) rec by simp
          then show ?thesis using over_ok_endRound [OF gok1] g1 by simp
        next
          case False
          then have "g' = g1" using started_play(2) rec by simp
          then show ?thesis using g1 by simp
        qed
      qed
    qed
  qed
qed

subsection \<open>Evaluating the example matches\<close>

lemmas model_defs =
  GAME_def createNextRound_def recipe_def getActiveRound_def getActivePlayer_def endRound_def
  checkWinners_def set_makes_def findIndex_null_def endRound_turn_def hasAttemptsLeft_def
  checkGameOver_def winsToFinish_def overtime_def randomMake_def rnd0_def digit_def Let_def
  Object_prototype_def

lemmas example_defs =
  pA_def pB_def pC_def match_def round1_def round2_def two_shots_def with_cy_def
  ann_and_cy_def restarted_def pE_def nround_def nameless_def

lemma started_match1: "started (match [round1 None None 0 None] None 0)"
  by (rule started_start [of "''r1''" rnd0 "''g''" "[pA, pB]" 1 3])
     (simp add: model_defs example_defs)

lemma started_match2: "started (match [round1 (Some True) None 1 None] None 0)"
  by (rule started_play [OF started_match1, of "''r2''" rnd0 make])
     (simp add: model_defs example_defs)

lemma started_match3:
  "started (match [round1 (Some True) (Some False) 0 (Some ''a''), round2 None None 0 None] None 1)"
  by (rule started_play [OF started_match2, of "''r2''" rnd0 miss])
     (simp add: model_defs example_defs)

lemma started_match4:
  "started (match [round1 (Some True) (Some False) 0 (Some ''a''),
                   round2 None (Some False) 1 None] None 1)"
  by (rule started_play [OF started_match3, of "''r3''" rnd0 miss])
     (simp add: model_defs example_defs)

lemma started_match5:
  "started (match [round1 (Some True) (Some False) 0 (Some ''a''),
                   round2 (Some True) (Some False) 1 (Some ''a'')] (Some pA) 1)"
  by (rule started_play [OF started_match4, of "''r3''" rnd0 make])
     (simp add: model_defs example_defs)

lemma started_two_shots: "started (two_shots [None, None])"
  by (rule started_start [of "''r1''" rnd0 "''g''" "[pA, pB]" 2 3])
     (simp add: model_defs example_defs numeral_2_eq_2)

lemma started_with_cy: "started (with_cy [None, None] 0)"
  by (rule started_start [of "''r1''" rnd0 "''g''" "[pC, pA]" 2 3])
     (simp add: model_defs example_defs numeral_2_eq_2)


lemma started_ann_and_cy: "started (ann_and_cy [Some True] [None] 1)"
proof -
  have "started (ann_and_cy [None] [None] 0)"
    by (rule started_start [of "''r1''" rnd0 "''g''" "[pA, pC]" 1 3])
       (simp add: model_defs example_defs)
  then show ?thesis
    by (rule started_play [of _ "''r2''" rnd0 make]) (simp add: model_defs example_defs)
qed

lemma started_nameless: "started (nameless [nround ''r1'' ''Round #1'' ['''', ''b''] (Some True) (Some False) 0 (Some ''''), nround ''r2'' ''Round #2'' [''b'', ''''] None (Some False) 1 None] 1)"
proof -
  have "started (nameless [nround ''r1'' ''Round #1'' ['''', ''b''] None None 0 None] 0)"
    by (rule started_start [of "''r1''" rnd0 "''g''" "[pE, pB]" 1 3])
       (simp add: model_defs example_defs)
  then have "started (nameless [nround ''r1'' ''Round #1'' ['''', ''b''] (Some True) None 1 None] 0)"
    by (rule started_play [of _ "''r2''" rnd0 make]) (simp add: model_defs example_defs)
  then have "started (nameless [nround ''r1'' ''Round #1'' ['''', ''b''] (Some True) (Some False) 0 (Some ''''), nround ''r2'' ''Round #2'' [''b'', ''''] None None 0 None] 1)"
    by (rule started_play [of _ "''r2''" rnd0 miss]) (simp add: model_defs example_defs)
  then show ?thesis
    by (rule started_play [of _ "''r3''" rnd0 miss]) (simp add: model_defs example_defs)
qed

lemma winsToFinish_iff:
  "winsToFinish g = n \<longleftrightarrow> bestOf g \<le> 2 * n \<and> 2 * n < bestOf g + 2"
  unfolding winsToFinish_def by presburger

subsection \<open>Further facts about started matches\<close>

lemma started_active_makes:
  assumes "started g" and "getActivePlayer g = Inr p"
  shows "\<exists>makes. map_of (attempts (rounds g ! activeRound g)) (player_id p) = Some makes"
proof -
  note ar = game_ok_active [OF started_game_ok [OF assms(1)]]
  have "player_id p \<in> fst ` set (attempts (rounds g ! activeRound g))"
    using getActivePlayer_roster [OF assms(2)] round_ok_keys [OF ar(2)] by simp
  then show ?thesis by (metis map_of_eq_None_iff not_Some_eq)
qed

lemma update_other_mem:
  "(k, v) \<in> set al \<Longrightarrow> k \<noteq> k' \<Longrightarrow> (k, v) \<in> set (AList.update k' v' al)"
  by (induction al) auto

subsection \<open>What endRound does to a started match\<close>

lemma endRound_cases [consumes 1, case_names pending nobody tie won created]:
  assumes gok: "game_ok g"
  obtains
    (pending) "hasAttemptsLeft (rounds g ! activeRound g)"
      "endRound uuid g = Inr (passed g)"
  | (nobody) "\<not> hasAttemptsLeft (rounds g ! activeRound g)"
      "leaders (rounds g ! activeRound g) = []"
      "endRound uuid g = Inr g"
  | (tie) "\<not> hasAttemptsLeft (rounds g ! activeRound g)"
      "2 \<le> length (leaders (rounds g ! activeRound g))"
      "endRound uuid g = Inr (extended g)"
  | (won) w y p where "\<not> hasAttemptsLeft (rounds g ! activeRound g)"
      "leaders (rounds g ! activeRound g) = [w]"
      "checkGameOver_loop (rounds (decided g w)) Map.empty (winsToFinish g) = Some y"
      "find (\<lambda>player. player_id player = y) (players g) = Some p"
      "endRound uuid g = Inr (decided g w\<lparr>game_winner := Some p\<rparr>)"
  | (created) w where "\<not> hasAttemptsLeft (rounds g ! activeRound g)"
      "leaders (rounds g ! activeRound g) = [w]"
      "checkGameOver_loop (rounds (decided g w)) Map.empty (winsToFinish g) = None"
      "endRound uuid g = Inr (endRound_turn (activeRound g) (createNextRound uuid (decided g w)))"
proof -
  note ar = game_ok_active [OF gok]
  have len: "Suc (activeRound g) = length (rounds g)" using gok by (simp add: game_ok_def)
  show thesis
  proof (cases "hasAttemptsLeft (rounds g ! activeRound g)")
    case True
    then show ?thesis using endRound_pending [OF ar(1) True] pending by simp
  next
    case False
    consider (n) "leaders (rounds g ! activeRound g) = []"
      | (s) w where "leaders (rounds g ! activeRound g) = [w]"
      | (t) "2 \<le> length (leaders (rounds g ! activeRound g))"
      by (rule list_cases3)
    then show ?thesis
    proof cases
      case n
      then show ?thesis using endRound_nobody [OF len False] nobody False by simp
    next
      case t
      then show ?thesis using endRound_tie [OF ar(1) False] tie False by simp
    next
      case (s w)
      have w: "w \<in> player_id ` set (players g)"
        using leaders_keys [of w "rounds g ! activeRound g"] s round_ok_keys [OF ar(2)] by simp
      note dok = game_ok_decided [OF gok w]
      show ?thesis
      proof (cases "checkGameOver_loop (rounds (decided g w)) Map.empty (winsToFinish g)")
        case None
        then have "endRound uuid g =
            Inr (endRound_turn (activeRound g) (createNextRound uuid (decided g w)))"
          using endRound_single [OF ar(1) False s] by (simp add: checkGameOver_cases)
        then show ?thesis using created [OF False s None] by simp
      next
        case (Some y)
        then obtain r where "r \<in> set (rounds (decided g w))" "winner r = Some y"
          using checkGameOver_loop_winner by blast
        then have "y \<in> player_id ` set (players g)"
          using game_ok_round [OF dok] round_ok_winner by fastforce
        then obtain p where p: "find (\<lambda>player. player_id player = y) (players g) = Some p"
          using find_roster by blast
        then have "endRound uuid g = Inr (decided g w\<lparr>game_winner := Some p\<rparr>)"
          using endRound_single [OF ar(1) False s] Some by (simp add: checkGameOver_cases)
        then show ?thesis using won [OF False s Some p] by simp
      qed
    qed
  qed
qed

lemma next_round_facts:
  fixes uuid :: string and d :: Game
  assumes "Suc (activeRound d) = length (rounds d)"
    and "\<not> hasAttemptsLeft (rounds d ! activeRound d)"
  defines "g' \<equiv> endRound_turn (activeRound d) (createNextRound uuid d)"
  shows "length (rounds g') = Suc (length (rounds d))"
    and "activeRound g' = length (rounds d)"
    and "rounds g' ! activeRound d = resting (rounds d ! activeRound d)"
    and "\<And>i. i < length (rounds d) \<Longrightarrow> i \<noteq> activeRound d \<Longrightarrow> rounds g' ! i = rounds d ! i"
    and "order (rounds g' ! length (rounds d)) = rev (order (rounds d ! activeRound d))"
    and "attempts (rounds g' ! length (rounds d)) =
           foldl (\<lambda>all player.
                    AList.update (player_id player) (replicate (game_attempts d) None) all)
             [] (players d)"
    and "activePlayer (rounds g' ! length (rounds d)) = 0"
    and "winner (rounds g' ! length (rounds d)) = None"
proof -
  note rs = next_round_rounds [OF assms(1,2), of uuid]
  have ar: "activeRound d < length (rounds d)" using assms(1) by simp
  show "length (rounds g')  = Suc (length (rounds d))" by (simp add: g'_def)
  show "activeRound g' = length (rounds d)" unfolding g'_def by (rule rs(2))
  show "rounds g' ! activeRound d = resting (rounds d ! activeRound d)"
    unfolding g'_def rs(1) using ar by (simp add: nth_append)
  show "rounds g' ! i = rounds d ! i" if "i < length (rounds d)" "i \<noteq> activeRound d" for i
    unfolding g'_def rs(1) using that by (simp add: nth_append)
  show "order (rounds g' ! length (rounds d)) = rev (order (rounds d ! activeRound d))"
    unfolding g'_def rs(1) by (simp add: nth_append)
  show "attempts (rounds g' ! length (rounds d)) =
           foldl (\<lambda>all player.
                    AList.update (player_id player) (replicate (game_attempts d) None) all)
             [] (players d)"
    unfolding g'_def rs(1) by (simp add: nth_append)
  show "activePlayer (rounds g' ! length (rounds d)) = 0"
    unfolding g'_def rs(1) by (simp add: nth_append)
  show "winner (rounds g' ! length (rounds d)) = None"
    unfolding g'_def rs(1) by (simp add: nth_append)
qed

lemma decided_full:
  assumes "activeRound g < length (rounds g)"
    and "\<not> hasAttemptsLeft (rounds g ! activeRound g)"
  shows "\<not> hasAttemptsLeft (rounds (decided g w) ! activeRound (decided g w))"
  using assms by (simp add: active_decided hasAttemptsLeft_def)

text \<open>
  \<open>endRound\<close> touches no round but the active one, never drops a round, and changes the
  attempts of the active round only by the overtime slots.
\<close>

lemma endRound_frame:
  assumes gok: "game_ok g" and e: "endRound uuid g = Inr g'"
  shows "length (rounds g) \<le> length (rounds g')"
    and "\<And>i. i < length (rounds g) \<Longrightarrow> i \<noteq> activeRound g \<Longrightarrow> rounds g' ! i = rounds g ! i"
    and "attempts (rounds g' ! activeRound g) = attempts (rounds g ! activeRound g) \<or>
         attempts (rounds g' ! activeRound g) =
           map (\<lambda>(id', atts). (id', atts @ [None])) (attempts (rounds g ! activeRound g))"
proof -
  note ar = game_ok_active [OF gok]
  have len: "Suc (activeRound g) = length (rounds g)" using gok by (simp add: game_ok_def)
  have "length (rounds g) \<le> length (rounds g') \<and>
     (\<forall>i. i < length (rounds g) \<longrightarrow> i \<noteq> activeRound g \<longrightarrow> rounds g' ! i = rounds g ! i) \<and>
     (attempts (rounds g' ! activeRound g) = attempts (rounds g ! activeRound g) \<or>
      attempts (rounds g' ! activeRound g) =
        map (\<lambda>(id', atts). (id', atts @ [None])) (attempts (rounds g ! activeRound g)))"
  using gok
  proof (cases rule: endRound_cases [where uuid = uuid])
    case pending
    then have "g' = passed g" using e by simp
    then show ?thesis using ar(1) by (simp add: passed_def)
  next
    case nobody
    then show ?thesis using e by simp
  next
    case tie
    then have "g' = extended g" using e by simp
    then show ?thesis using ar(1) by (simp add: extended_def)
  next
    case (won w y p)
    then have "g' = decided g w\<lparr>game_winner := Some p\<rparr>" using e by simp
    then show ?thesis using ar(1) by (simp add: decided_def)
  next
    case (created w)
    then have g': "g' = endRound_turn (activeRound (decided g w)) (createNextRound uuid (decided g w))"
      using e by simp
    have dlen: "Suc (activeRound (decided g w)) = length (rounds (decided g w))"
      using len by simp
    note f = next_round_facts [OF dlen decided_full [OF ar(1) created(1)], where uuid = uuid, folded g']
    have "rounds g' ! i = rounds g ! i" if "i < length (rounds g)" "i \<noteq> activeRound g" for i
      using f(4) [of i] that by (simp add: decided_def)
    moreover have "attempts (rounds g' ! activeRound g) = attempts (rounds g ! activeRound g)"
      using f(3) ar(1) by (simp add: active_decided)
    ultimately show ?thesis using f(1) by simp
  qed
  then show "length (rounds g) \<le> length (rounds g')"
    and "\<And>i. i < length (rounds g) \<Longrightarrow> i \<noteq> activeRound g \<Longrightarrow> rounds g' ! i = rounds g ! i"
    and "attempts (rounds g' ! activeRound g) = attempts (rounds g ! activeRound g) \<or>
         attempts (rounds g' ! activeRound g) =
           map (\<lambda>(id', atts). (id', atts @ [None])) (attempts (rounds g ! activeRound g))"
    by simp_all
qed

lemma update_mem: "(k, v) \<in> set (AList.update k v al)"
  by (induction al) auto

lemma recorded_calls_endRound:
  assumes gok: "game_ok g" and rec: "recipe rnd g t = Inr (Some (g1, b))"
    and full: "\<not> hasAttemptsLeft (rounds g1 ! activeRound g1)"
  shows b
proof -
  from rec obtain p :: Player and makes makes' where
    ar: "activeRound g < length (rounds g)"
    and m: "map_of (attempts (rounds g ! activeRound g)) (player_id p) = Some makes"
    and g1: "g1 = set_makes g (rounds g ! activeRound g) (player_id p) makes'"
    and sim: "t = simulate \<longrightarrow> \<not> controlled p \<and> b \<and> makes' = simulate_loop rnd (percentage p) 0 makes"
    and shot: "t \<noteq> simulate \<longrightarrow> controlled p \<and>
       (\<exists>i. findIndex_null makes = Some i \<and> makes' = makes[i := Some (t = make)] \<and>
            b = (Suc i = length makes))"
    by (rule recipe_recorded)
  show ?thesis
  proof (cases "t = simulate")
    case True
    then show ?thesis using sim by simp
  next
    case False
    then obtain i where i: "findIndex_null makes = Some i" "makes' = makes[i := Some (t = make)]"
      "b = (Suc i = length makes)"
      using shot by auto
    have "(player_id p, makes') \<in> set (attempts (rounds g1 ! activeRound g1))"
      using ar by (simp add: g1 update_mem)
    then have "None \<notin> set makes'" using full by (auto simp: hasAttemptsLeft_iff)
    moreover have "taken_in_order makes"
      using round_ok_order [OF game_ok_active(2) [OF gok] map_of_SomeD [OF m]] .
    ultimately show ?thesis using fill_last_slot [OF _ i(1)] i(2,3) by simp
  qed
qed

lemma game_over_recorded:
  assumes gok: "game_ok g" and ok: "over_ok g" and w: "game_winner g \<noteq> None"
    and rec: "recipe rnd g t = Inr (Some (g1, b))"
  shows "g1 = g"
proof -
  note ar = game_ok_active [OF gok]
  from ok w obtain x where cw: "checkWinners g = Inr [x]" by (auto simp: over_ok_def)
  have full: "\<not> hasAttemptsLeft (rounds g ! activeRound g)"
    using cw checkWinners_eq [OF ar(1)] by (auto split: if_splits)
  from rec obtain p :: Player and makes makes' where
    m: "map_of (attempts (rounds g ! activeRound g)) (player_id p) = Some makes"
    and g1: "g1 = set_makes g (rounds g ! activeRound g) (player_id p) makes'"
    and sim: "t = simulate \<longrightarrow> \<not> controlled p \<and> b \<and> makes' = simulate_loop rnd (percentage p) 0 makes"
    and shot: "t \<noteq> simulate \<longrightarrow> controlled p \<and>
       (\<exists>i. findIndex_null makes = Some i \<and> makes' = makes[i := Some (t = make)] \<and>
            b = (Suc i = length makes))"
    by (rule recipe_recorded)
  have filled: "None \<notin> set makes"
    using map_of_SomeD [OF m] full by (auto simp: hasAttemptsLeft_iff)
  then have "findIndex_null makes = None" by (simp add: findIndex_null_None)
  then have "t = simulate" using shot by auto
  then have "makes' = makes" using sim filled by (simp add: simulate_loop_id)
  then show ?thesis using g1 m by (simp add: set_makes_same)
qed

lemma reducer_frame:
  assumes gok: "game_ok g" and red: "gameReducer uuid rnd g (Play t) = Inr g'"
  shows "length (rounds g) \<le> length (rounds g')"
    and "\<And>i. i < length (rounds g) \<Longrightarrow> i \<noteq> activeRound g \<Longrightarrow> rounds g' ! i = rounds g ! i"
proof -
  have "length (rounds g) \<le> length (rounds g') \<and>
     (\<forall>i. i < length (rounds g) \<longrightarrow> i \<noteq> activeRound g \<longrightarrow> rounds g' ! i = rounds g ! i)"
  proof (cases "recipe rnd g t")
    case (Inl e)
    with red show ?thesis by simp
  next
    case (Inr x)
    show ?thesis
    proof (cases x)
      case None
      with Inr red show ?thesis by simp
    next
      case (Some y)
      obtain g1 c where y: "y = (g1, c)" by (cases y)
      have rec: "recipe rnd g t = Inr (Some (g1, c))" using Inr Some y by simp
      from rec obtain p :: Player and makes :: "attempt list" and makes' where
        g1: "g1 = set_makes g (rounds g ! activeRound g) (player_id p) makes'"
        by (rule recipe_recorded)
      have 1: "length (rounds g1) = length (rounds g)" "activeRound g1 = activeRound g"
        "\<And>i. i \<noteq> activeRound g \<Longrightarrow> rounds g1 ! i = rounds g ! i"
        by (simp_all add: g1)
      show ?thesis
      proof (cases c)
        case False
        then have "g' = g1" using red rec by simp
        then show ?thesis using 1 by simp
      next
        case True
        then have e: "endRound uuid g1 = Inr g'" using red rec by simp
        note f = endRound_frame [OF game_ok_recorded [OF gok rec] e]
        show ?thesis using f(1) f(2) 1 by simp
      qed
    qed
  qed
  then show "length (rounds g) \<le> length (rounds g')"
    and "\<And>i. i < length (rounds g) \<Longrightarrow> i \<noteq> activeRound g \<Longrightarrow> rounds g' ! i = rounds g ! i"
    by simp_all
qed


lemma recorded_same:
  assumes "recipe rnd g t = Inr (Some (g1, b))"
  shows "players g1 = players g" and "bestOf g1 = bestOf g" and "game_attempts g1 = game_attempts g"
    and "game_winner g1 = game_winner g" and "activeRound g1 = activeRound g"
    and "length (rounds g1) = length (rounds g)"
    and "map winner (rounds g1) = map winner (rounds g)"
    and "winner (rounds g1 ! activeRound g) = winner (rounds g ! activeRound g)"
    and "order (rounds g1 ! activeRound g) = order (rounds g ! activeRound g)"
    and "activePlayer (rounds g1 ! activeRound g) = activePlayer (rounds g ! activeRound g)"
    and "winsToFinish g1 = winsToFinish g"
proof -
  from assms obtain p :: Player and makes :: "attempt list" and makes' where
    ar: "activeRound g < length (rounds g)"
    and g1: "g1 = set_makes g (rounds g ! activeRound g) (player_id p) makes'"
    by (rule recipe_recorded)
  show "players g1 = players g" "bestOf g1 = bestOf g" "game_attempts g1 = game_attempts g"
    "game_winner g1 = game_winner g" "activeRound g1 = activeRound g"
    "length (rounds g1) = length (rounds g)" "winsToFinish g1 = winsToFinish g"
    by (simp_all add: g1)
  show "map winner (rounds g1) = map winner (rounds g)"
    unfolding g1 by (rule winners_set_makes)
  show "winner (rounds g1 ! activeRound g) = winner (rounds g ! activeRound g)"
    "order (rounds g1 ! activeRound g) = order (rounds g ! activeRound g)"
    "activePlayer (rounds g1 ! activeRound g) = activePlayer (rounds g ! activeRound g)"
    using ar by (simp_all add: g1)
qed

lemma wins_winners: "map winner rs = map winner rs' \<Longrightarrow> wins w rs = wins w rs'"
proof (induction rs arbitrary: rs')
  case Nil
  then show ?case by (simp add: wins_def)
next
  case (Cons r rs)
  then obtain r' rs'' where rs': "rs' = r' # rs''" "winner r = winner r'"
    "map winner rs = map winner rs''"
    by (cases rs') auto
  show ?case unfolding rs'(1) wins_Cons rs'(2) Cons.IH [OF rs'(3)] ..
qed

lemma wins_append: "wins w (xs @ ys) = wins w xs + wins w ys"
  by (simp add: wins_def)

text \<open>
  The loop of \<open>checkGameOver\<close> on a started match without a winner, once the active round
  is decided for \<open>w\<close>: it stops exactly when this win is the one that completes the tally.
\<close>

lemma decided_loop:
  assumes gok: "game_ok g" and ok: "over_ok g" and nw: "game_winner g = None"
    and w: "w \<noteq> []" and o: "w \<notin> set Object_prototype"
  shows "checkGameOver_loop (rounds (decided g w)) Map.empty (winsToFinish g) =
     (if int (Suc (wins w (rounds g))) = winsToFinish g then Some w else None)"
proof -
  define ar where "ar = activeRound g"
  define before where "before = take ar (rounds g)"
  define r where "r = rounds g ! ar"
  have len: "Suc ar = length (rounds g)" using gok by (simp add: game_ok_def ar_def)
  then have lt: "ar < length (rounds g)" by simp
  have rs: "rounds g = before @ [r]"
    using take_Suc_conv_app_nth [OF lt] len by (simp add: before_def r_def)
  have "rounds (decided g w) = (rounds g)[ar := r\<lparr>winner := Some w\<rparr>]"
    by (simp add: decided_def ar_def r_def)
  also have "\<dots> = before @ [r\<lparr>winner := Some w\<rparr>]"
    using upd_conv_take_nth_drop [OF lt, of "r\<lparr>winner := Some w\<rparr>"] len
    by (simp add: before_def)
  finally have ds: "rounds (decided g w) = before @ [r\<lparr>winner := Some w\<rparr>]" .
  have open_round: "winner r = None" using ok nw by (simp add: over_ok_def r_def ar_def)
  have "checkGameOver_loop (before @ [r]) Map.empty (winsToFinish g) = None"
    using ok nw by (simp add: over_ok_def rs)
  then have b: "checkGameOver_loop before Map.empty (winsToFinish g) = None"
    unfolding checkGameOver_loop_append by (simp split: option.splits)
  have t: "(case tally before Map.empty w of Some k \<Rightarrow> Suc k | None \<Rightarrow> 1) = Suc (wins w before)"
    using tally_wins [OF w o, of before Map.empty] by simp
  have "wins w (rounds g) = wins w before"
    unfolding rs wins_append using open_round by (simp add: wins_def)
  then show ?thesis
    unfolding ds checkGameOver_loop_append b
    using w o t by (simp add: checkGameOver_loop_Cons)
qed

lemma winsToFinish_ceiling:
  "bestOf g \<le> 2 * winsToFinish g \<and> 2 * winsToFinish g < bestOf g + 2"
  unfolding winsToFinish_def by presburger

subsection \<open>The turn order of a started match\<close>

lemma turn_okI:
  assumes "\<And>r. r \<in> set (rounds g) \<Longrightarrow> set (order r) = player_id ` set (players g)"
    and "\<And>r. r \<in> set (rounds g) \<Longrightarrow> players g \<noteq> [] \<Longrightarrow> activePlayer r < length (order r)"
  shows "turn_ok g"
  using assms by (simp add: turn_ok_def)

lemma turn_ok_order: "turn_ok g \<Longrightarrow> r \<in> set (rounds g) \<Longrightarrow> set (order r) = player_id ` set (players g)"
  by (simp add: turn_ok_def)

lemma turn_ok_index:
  "turn_ok g \<Longrightarrow> r \<in> set (rounds g) \<Longrightarrow> players g \<noteq> [] \<Longrightarrow> activePlayer r < length (order r)"
  by (simp add: turn_ok_def)

lemma turn_ok_update:
  assumes ok: "turn_ok g" and i: "i < length (rounds g)"
    and "players g' = players g" and "rounds g' = (rounds g)[i := r']"
    and "order r' = order (rounds g ! i)"
    and "players g \<noteq> [] \<Longrightarrow> activePlayer r' < length (order r')"
  shows "turn_ok g'"
proof (rule turn_okI)
  have old: "rounds g ! i \<in> set (rounds g)" using i by simp
  fix r
  assume "r \<in> set (rounds g')"
  then have c: "r = r' \<or> r \<in> set (rounds g)"
    using in_set_updateD [of r "rounds g" i r'] assms(4) by simp
  show "set (order r) = player_id ` set (players g')"
    using c turn_ok_order [OF ok] old assms(3,5) by auto
  show "activePlayer r < length (order r)" if "players g' \<noteq> []"
    using c turn_ok_index [OF ok] that assms(3,6) by auto
qed

lemma turn_ok_recorded:
  assumes ok: "turn_ok g" and rec: "recipe rnd g t = Inr (Some (g1, b))"
  shows "turn_ok g1"
proof -
  from rec obtain p :: Player and makes :: "attempt list" and makes' where
    ar: "activeRound g < length (rounds g)"
    and g1: "g1 = set_makes g (rounds g ! activeRound g) (player_id p) makes'"
    by (rule recipe_recorded)
  have "rounds g ! activeRound g \<in> set (rounds g)" using ar by simp
  then have "players g \<noteq> [] \<Longrightarrow>
      activePlayer (rounds g ! activeRound g) < length (order (rounds g ! activeRound g))"
    using turn_ok_index [OF ok] by simp
  then show ?thesis
    by (intro turn_ok_update [OF ok ar, where
          r' = "(rounds g ! activeRound g)\<lparr>attempts := AList.update (player_id p) makes'
                  (attempts (rounds g ! activeRound g))\<rparr>"])
       (simp_all add: g1)
qed

lemma turn_ok_endRound:
  assumes gok: "game_ok g" and ok: "turn_ok g" and e: "endRound uuid g = Inr g'"
  shows "turn_ok g'"
proof -
  note ar = game_ok_active [OF gok]
  have len: "Suc (activeRound g) = length (rounds g)" using gok by (simp add: game_ok_def)
  let ?r = "rounds g ! activeRound g"
  have mem: "?r \<in> set (rounds g)" using ar(1) by simp
  have idx: "players g \<noteq> [] \<Longrightarrow> activePlayer ?r < length (order ?r)"
    using turn_ok_index [OF ok mem] .
  have ne: "players g \<noteq> [] \<Longrightarrow> 0 < length (order ?r)"
    using idx by auto
  from gok show ?thesis
  proof (cases rule: endRound_cases [where uuid = uuid])
    case pending
    then have g': "g' = passed g" using e by simp
    show ?thesis
      by (rule turn_ok_update [OF ok ar(1), where
            r' = "?r\<lparr>activePlayer := (activePlayer ?r + 1) mod length (order ?r)\<rparr>"])
         (use ne in \<open>simp_all add: g' passed_def\<close>)
  next
    case nobody
    then show ?thesis using e ok by simp
  next
    case tie
    then have g': "g' = extended g" using e by simp
    show ?thesis
      by (rule turn_ok_update [OF ok ar(1), where
            r' = "?r\<lparr>attempts := map (\<lambda>(id', atts). (id', atts @ [None])) (attempts ?r)\<rparr>"])
         (use idx in \<open>simp_all add: g' extended_def\<close>)
  next
    case (won w y p)
    then have g': "g' = decided g w\<lparr>game_winner := Some p\<rparr>" using e by simp
    show ?thesis
      by (rule turn_ok_update [OF ok ar(1), where r' = "?r\<lparr>winner := Some w\<rparr>"])
         (use idx in \<open>simp_all add: g' decided_def\<close>)
  next
    case (created w)
    then have g': "g' = endRound_turn (activeRound (decided g w)) (createNextRound uuid (decided g w))"
      using e by simp
    have dlen: "Suc (activeRound (decided g w)) = length (rounds (decided g w))"
      using len by simp
    note f = next_round_facts [OF dlen decided_full [OF ar(1) created(1)], where uuid = uuid,
        folded g']
    have d: "rounds (decided g w) ! activeRound g = ?r\<lparr>winner := Some w\<rparr>"
      by (rule active_decided [OF ar(1)])
    have pl: "players g' = players g" by (simp add: g')
    have facts: "set (order (rounds g' ! i)) = player_id ` set (players g) \<and>
        (players g \<noteq> [] \<longrightarrow> activePlayer (rounds g' ! i) < length (order (rounds g' ! i)))"
      if lt: "i < length (rounds g')" for i
    proof -
      consider (new) "i = length (rounds g)" | (dec) "i = activeRound g"
        | (old) "i < length (rounds g)" "i \<noteq> activeRound g"
        using lt f(1) by (cases "i = length (rounds g)") auto
      then show ?thesis
      proof cases
        case new
        have "order (rounds g' ! i) = rev (order ?r)" "activePlayer (rounds g' ! i) = 0"
          using f(5,7) d new by simp_all
        then show ?thesis using turn_ok_order [OF ok mem] ne by simp
      next
        case dec
        have "rounds g' ! i = resting (?r\<lparr>winner := Some w\<rparr>)"
          using f(3) d dec by simp
        then show ?thesis using turn_ok_order [OF ok mem] idx ne by (simp add: resting_def)
      next
        case old
        then have "rounds g' ! i = rounds g ! i" "rounds g ! i \<in> set (rounds g)"
          using f(4) [of i] by (simp_all add: decided_def)
        then show ?thesis using turn_ok_order [OF ok] turn_ok_index [OF ok] by auto
      qed
    qed
    show ?thesis
    proof (rule turn_okI)
      fix r
      assume "r \<in> set (rounds g')"
      then obtain i where i: "i < length (rounds g')" "r = rounds g' ! i"
        by (auto simp: in_set_conv_nth)
      show "set (order r) = player_id ` set (players g')"
        using facts [OF i(1)] i(2) pl by simp
      show "activePlayer r < length (order r)" if "players g' \<noteq> []"
        using facts [OF i(1)] i(2) pl that by simp
    qed
  qed
qed

lemma turn_ok_start:
  "turn_ok (createNextRound uuid (GAME gid\<lparr>players := ps, game_attempts := n, bestOf := b\<rparr>))"
  by (rule turn_okI) (auto simp: createNextRound_def GAME_def)

lemma started_turn_ok: "started g \<Longrightarrow> turn_ok g"
proof (induction rule: started.induct)
  case (started_start uuid rnd gid ps n b g)
  then show ?case using turn_ok_start by auto
next
  case (started_play g uuid rnd t g')
  note gok = started_game_ok [OF started_play(1)]
  show ?case
  proof (cases "recipe rnd g t")
    case (Inl e)
    with started_play show ?thesis by simp
  next
    case (Inr x)
    show ?thesis
    proof (cases x)
      case None
      with Inr started_play show ?thesis by simp
    next
      case (Some y)
      obtain g1 c where y: "y = (g1, c)" by (cases y)
      have rec: "recipe rnd g t = Inr (Some (g1, c))" using Inr Some y by simp
      note t1 = turn_ok_recorded [OF started_play.IH rec]
      note gok1 = game_ok_recorded [OF gok rec]
      show ?thesis
      proof (cases c)
        case True
        then have "endRound uuid g1 = Inr g'" using started_play(2) rec by simp
        then show ?thesis by (rule turn_ok_endRound [OF gok1 t1])
      next
        case False
        then have "g' = g1" using started_play(2) rec by simp
        then show ?thesis using t1 by simp
      qed
    qed
  qed
qed

text \<open>In a started match with a non-empty roster there is an active player.\<close>

lemma started_active_player:
  assumes "started g" and "players g \<noteq> []"
  shows "\<exists>p. getActivePlayer g = Inr p"
proof -
  note ar = game_ok_active [OF started_game_ok [OF assms(1)]]
  note ok = started_turn_ok [OF assms(1)]
  let ?r = "rounds g ! activeRound g"
  have mem: "?r \<in> set (rounds g)" using ar(1) by simp
  have idx: "activePlayer ?r < length (order ?r)" using turn_ok_index [OF ok mem assms(2)] .
  then have "order ?r ! activePlayer ?r \<in> set (order ?r)" by simp
  then have "order ?r ! activePlayer ?r \<in> player_id ` set (players g)"
    using turn_ok_order [OF ok mem] by simp
  then obtain p where "find (\<lambda>player. player_id player = order ?r ! activePlayer ?r) (players g) = Some p"
    using find_roster by blast
  then show ?thesis using ar(1) idx by (simp add: getActivePlayer_def getActiveRound_def)
qed

lemma won_roster:
  assumes gok: "game_ok g" and ok: "over_ok g" and w: "game_winner g \<noteq> None"
  shows "players g \<noteq> []"
proof -
  note ar = game_ok_active [OF gok]
  from ok w obtain x where "checkWinners g = Inr [x]" by (auto simp: over_ok_def)
  then have "leaders (rounds g ! activeRound g) = [x]"
    using checkWinners_eq [OF ar(1)] by (auto split: if_splits)
  then have "x \<in> fst ` set (attempts (rounds g ! activeRound g))"
    using leaders_keys [of x] by simp
  then have "x \<in> player_id ` set (players g)" using round_ok_keys [OF ar(2)] by simp
  then show ?thesis by auto
qed

section \<open>Properties of the reducer\<close>

text \<open>
  C1. In a started match, let an action record an attempt of the active player such that
  afterwards no slot of the active round is pending and exactly one player \<open>w\<close> holds the
  maximum total makes, and let the match not be won by that. Then the reducer has set the
  round's winner to \<open>w\<close> and appended one round, which is the active round: its order is
  the reverse of the order of the round just decided, every roster player has as many
  pending slots in it as the match's configured attempts, and its \<open>activePlayer\<close> is 0.
  (\<open>g1\<close> is the draft after the recipe has recorded the attempt.)
\<close>

theorem single_leader_next_round:
  assumes "started g" and "recipe rnd g t = Inr (Some (g1, b))"
    and "\<not> hasAttemptsLeft (rounds g1 ! activeRound g1)"
    and "leaders (rounds g1 ! activeRound g1) = [w]"
    and "gameReducer uuid rnd g (Play t) = Inr g'" and "game_winner g' = None"
  shows "winner (rounds g' ! activeRound g) = Some w \<and>
     length (rounds g') = Suc (length (rounds g)) \<and>
     activeRound g' = length (rounds g) \<and>
     order (rounds g' ! activeRound g') = rev (order (rounds g ! activeRound g)) \<and>
     (\<forall>p \<in> set (players g).
        map_of (attempts (rounds g' ! activeRound g')) (player_id p) =
          Some (replicate (game_attempts g) None)) \<and>
     activePlayer (rounds g' ! activeRound g') = 0 \<and>
     winner (rounds g' ! activeRound g') = None"
proof -
  note gok = started_game_ok [OF assms(1)]
  note same = recorded_same [OF assms(2)]
  note gok1 = game_ok_recorded [OF gok assms(2)]
  note ar1 = game_ok_active [OF gok1]
  have len1: "Suc (activeRound g1) = length (rounds g1)" using gok1 by (simp add: game_ok_def)
  have b by (rule recorded_calls_endRound [OF gok assms(2,3)])
  then have e: "endRound uuid g1 = Inr g'" using assms(2,5) by simp
  from gok1 show ?thesis
  proof (cases rule: endRound_cases [where uuid = uuid])
    case pending
    then show ?thesis using assms(3) by simp
  next
    case nobody
    then show ?thesis using assms(4) by simp
  next
    case tie
    then show ?thesis using assms(4) by simp
  next
    case (won x y p)
    then have "game_winner g' = Some p" using e by simp
    then show ?thesis using assms(6) by simp
  next
    case (created x)
    then have x: "x = w" using assms(4) by simp
    have g': "g' = endRound_turn (activeRound (decided g1 w)) (createNextRound uuid (decided g1 w))"
      using created(4) e x by simp
    have dlen: "Suc (activeRound (decided g1 w)) = length (rounds (decided g1 w))"
      using len1 by simp
    note f = next_round_facts [OF dlen decided_full [OF ar1(1) assms(3)], where uuid = uuid,
        folded g']
    have act: "activeRound g' = length (rounds g)" using f(2) same(6) by simp
    have d: "rounds (decided g1 w) ! activeRound g1 = (rounds g1 ! activeRound g1)\<lparr>winner := Some w\<rparr>"
      by (rule active_decided [OF ar1(1)])
    have 1: "winner (rounds g' ! activeRound g) = Some w"
      using f(3) d same(5) by simp
    have 2: "length (rounds g') = Suc (length (rounds g))" using f(1) same(6) by simp
    have 3: "order (rounds g' ! activeRound g') = rev (order (rounds g ! activeRound g))"
      using f(5) d same(5,6,9) by (simp add: act)
    have "attempts (rounds g' ! activeRound g') =
        foldl (\<lambda>all player.
                 AList.update (player_id player) (replicate (game_attempts g) None) all)
          [] (players g)"
      using f(6) same(1,3,6) by (simp add: act)
    then have 4: "\<forall>p \<in> set (players g).
        map_of (attempts (rounds g' ! activeRound g')) (player_id p) =
          Some (replicate (game_attempts g) None)"
      by (simp add: map_of_new_round)
    have 5: "activePlayer (rounds g' ! activeRound g') = 0" "winner (rounds g' ! activeRound g') = None"
      using f(7,8) same(6) by (simp_all add: act)
    show ?thesis using 1 2 3 4 5 act by simp
  qed
qed

theorem single_leader_next_round_witness:
  "started (match [round1 (Some True) None 1 None] None 0) \<and>
   recipe rnd0 (match [round1 (Some True) None 1 None] None 0) miss = Inr (Some (match [round1 (Some True) (Some False) 1 None] None 0, True)) \<and>
   \<not> hasAttemptsLeft (rounds (match [round1 (Some True) (Some False) 1 None] None 0) ! activeRound (match [round1 (Some True) (Some False) 1 None] None 0)) \<and>
   leaders (rounds (match [round1 (Some True) (Some False) 1 None] None 0) ! activeRound (match [round1 (Some True) (Some False) 1 None] None 0)) = [''a''] \<and>
   gameReducer ''r2'' rnd0 (match [round1 (Some True) None 1 None] None 0) (Play miss) = Inr (match [round1 (Some True) (Some False) 0 (Some ''a''), round2 None None 0 None] None 1) \<and>
   game_winner (match [round1 (Some True) (Some False) 0 (Some ''a''), round2 None None 0 None] None 1) = None \<and>
   winner (rounds (match [round1 (Some True) (Some False) 0 (Some ''a''), round2 None None 0 None] None 1) ! activeRound (match [round1 (Some True) None 1 None] None 0)) = Some ''a'' \<and>
   length (rounds (match [round1 (Some True) (Some False) 0 (Some ''a''), round2 None None 0 None] None 1)) = Suc (length (rounds (match [round1 (Some True) None 1 None] None 0))) \<and>
   activeRound (match [round1 (Some True) (Some False) 0 (Some ''a''), round2 None None 0 None] None 1) = length (rounds (match [round1 (Some True) None 1 None] None 0)) \<and>
   order (rounds (match [round1 (Some True) (Some False) 0 (Some ''a''), round2 None None 0 None] None 1) ! activeRound (match [round1 (Some True) (Some False) 0 (Some ''a''), round2 None None 0 None] None 1)) = rev (order (rounds (match [round1 (Some True) None 1 None] None 0) ! activeRound (match [round1 (Some True) None 1 None] None 0))) \<and>
   pA \<in> set (players (match [round1 (Some True) None 1 None] None 0)) \<and> pB \<in> set (players (match [round1 (Some True) None 1 None] None 0)) \<and>
   map_of (attempts (rounds (match [round1 (Some True) (Some False) 0 (Some ''a''), round2 None None 0 None] None 1) ! activeRound (match [round1 (Some True) (Some False) 0 (Some ''a''), round2 None None 0 None] None 1))) (player_id pA) =
     Some (replicate (game_attempts (match [round1 (Some True) None 1 None] None 0)) None) \<and>
   map_of (attempts (rounds (match [round1 (Some True) (Some False) 0 (Some ''a''), round2 None None 0 None] None 1) ! activeRound (match [round1 (Some True) (Some False) 0 (Some ''a''), round2 None None 0 None] None 1))) (player_id pB) =
     Some (replicate (game_attempts (match [round1 (Some True) None 1 None] None 0)) None) \<and>
   activePlayer (rounds (match [round1 (Some True) (Some False) 0 (Some ''a''), round2 None None 0 None] None 1) ! activeRound (match [round1 (Some True) (Some False) 0 (Some ''a''), round2 None None 0 None] None 1)) = 0 \<and>
   winner (rounds (match [round1 (Some True) (Some False) 0 (Some ''a''), round2 None None 0 None] None 1) ! activeRound (match [round1 (Some True) (Some False) 0 (Some ''a''), round2 None None 0 None] None 1)) = None"
proof -
  have 1: "recipe rnd0 (match [round1 (Some True) None 1 None] None 0) miss = Inr (Some (match [round1 (Some True) (Some False) 1 None] None 0, True))"
    by (simp add: model_defs example_defs)
  have 2: "\<not> hasAttemptsLeft (rounds (match [round1 (Some True) (Some False) 1 None] None 0) ! activeRound (match [round1 (Some True) (Some False) 1 None] None 0))"
    by (simp add: example_defs hasAttemptsLeft_def)
  have 3: "leaders (rounds (match [round1 (Some True) (Some False) 1 None] None 0) ! activeRound (match [round1 (Some True) (Some False) 1 None] None 0)) = [''a'']"
    by (simp add: example_defs leaders_def makes_of_def)
  have 4: "gameReducer ''r2'' rnd0 (match [round1 (Some True) None 1 None] None 0) (Play miss) = Inr (match [round1 (Some True) (Some False) 0 (Some ''a''), round2 None None 0 None] None 1)"
    by (simp add: model_defs example_defs)
  have 5: "game_winner (match [round1 (Some True) (Some False) 0 (Some ''a''), round2 None None 0 None] None 1) = None" by (simp add: match_def)
  have 6: "pA \<in> set (players (match [round1 (Some True) None 1 None] None 0))" "pB \<in> set (players (match [round1 (Some True) None 1 None] None 0))"
    by (simp_all add: match_def)
  show ?thesis
    using single_leader_next_round [OF started_match2 1 2 3 4 5] started_match2 1 2 3 4 5 6
    by blast
qed











text \<open>
  C6, as amended. When the active player of a started match is not controlled (and no
  roster id is \<open>__proto__\<close>), one \<open>simulate\<close> action succeeds. It replaces that player's attempt sequence of the active
  round by one of the same length without a pending slot (\<open>filled\<close>), in which the slots
  already taken are unchanged, and returns what \<open>endRound\<close> returns on that draft, whether or
  not other players still have pending slots. In the returned state the player's sequence is
  \<open>filled\<close>, or \<open>filled\<close> followed by one pending slot: the overtime slot, which is there
  exactly when the round is complete and tied. When another player still has a pending
  slot, the turn has passed on by one position and the round is still the active one.
\<close>

theorem simulate_fills_all:
  assumes "started g" and "getActivePlayer g = Inr p" and "\<not> controlled p"
    and "\<forall>q \<in> set (players g). player_id q \<noteq> ''__proto__''"
  shows "\<exists>makes filled g' makes'.
     map_of (attempts (rounds g ! activeRound g)) (player_id p) = Some makes \<and>
     length filled = length makes \<and> None \<notin> set filled \<and>
     (\<forall>i < length makes. makes ! i \<noteq> None \<longrightarrow> filled ! i = makes ! i) \<and>
     gameReducer uuid rnd g (Play simulate) = Inr g' \<and>
     endRound uuid (set_makes g (rounds g ! activeRound g) (player_id p) filled) = Inr g' \<and>
     map_of (attempts (rounds g' ! activeRound g)) (player_id p) = Some makes' \<and>
     (makes' = filled \<or> makes' = filled @ [None]) \<and>
     (makes' = filled @ [None] \<longleftrightarrow>
        \<not> hasAttemptsLeft
            (rounds (set_makes g (rounds g ! activeRound g) (player_id p) filled) ! activeRound g) \<and>
        2 \<le> length (leaders
            (rounds (set_makes g (rounds g ! activeRound g) (player_id p) filled) ! activeRound g))) \<and>
     ((\<exists>(k, v) \<in> set (attempts (rounds g ! activeRound g)). k \<noteq> player_id p \<and> None \<in> set v) \<longrightarrow>
        activeRound g' = activeRound g \<and>
        activePlayer (rounds g' ! activeRound g) =
          (activePlayer (rounds g ! activeRound g) + 1) mod
            length (order (rounds g ! activeRound g)))"
proof -
  note gok = started_game_ok [OF assms(1)]
  from started_active_makes [OF assms(1,2)] obtain makes where
    m: "map_of (attempts (rounds g ! activeRound g)) (player_id p) = Some makes" ..
  define filled where "filled = simulate_loop rnd (percentage p) 0 makes"
  define g1 where "g1 = set_makes g (rounds g ! activeRound g) (player_id p) filled"
  let ?r1 = "rounds g1 ! activeRound g"
  let ?others = "\<exists>(k, v) \<in> set (attempts (rounds g ! activeRound g)). k \<noteq> player_id p \<and> None \<in> set v"
  let ?tie = "\<not> hasAttemptsLeft ?r1 \<and> 2 \<le> length (leaders ?r1)"
  have ar: "activeRound g < length (rounds g)" by (rule getActivePlayer_active [OF assms(2)])
  have rec: "recipe rnd g simulate = Inr (Some (g1, True))"
    using assms(3) m by (simp add: recipe_simulate [OF assms(2)] g1_def filled_def)
  then have red: "gameReducer uuid rnd g (Play simulate) = endRound uuid g1" by simp
  note gok1 = game_ok_recorded [OF gok rec]
  have a1: "activeRound g1 = activeRound g" by (simp add: g1_def)
  have ar1: "activeRound g1 < length (rounds g1)" using ar by (simp add: g1_def)
  have act: "?r1 = (rounds g ! activeRound g)\<lparr>attempts := AList.update (player_id p) filled
      (attempts (rounds g ! activeRound g))\<rparr>"
    unfolding g1_def by (rule active_set_makes [OF ar])
  have m1: "map_of (attempts ?r1) (player_id p) = Some filled"
    by (simp add: act update_conv')
  have left: "hasAttemptsLeft ?r1" if ?others
  proof -
    from that obtain k v where "(k, v) \<in> set (attempts (rounds g ! activeRound g))"
      "k \<noteq> player_id p" "None \<in> set v"
      by auto
    then have "(k, v) \<in> set (attempts ?r1)" "None \<in> set v"
      by (simp_all add: act update_other_mem)
    then show ?thesis unfolding hasAttemptsLeft_iff by blast
  qed
  have f1: "length filled = length makes" "None \<notin> set filled"
    "\<forall>i < length makes. makes ! i \<noteq> None \<longrightarrow> filled ! i = makes ! i"
    by (simp_all add: filled_def simulate_loop_filled simulate_loop_keeps)
  have concl: ?thesis
    if e: "endRound uuid g1 = Inr g'"
      and att: "attempts (rounds g' ! activeRound g) =
        (if ?tie then map (\<lambda>(id', atts). (id', atts @ [None])) (attempts ?r1) else attempts ?r1)"
      and adv: "hasAttemptsLeft ?r1 \<Longrightarrow> activeRound g' = activeRound g \<and>
        activePlayer (rounds g' ! activeRound g) =
          (activePlayer (rounds g ! activeRound g) + 1) mod
            length (order (rounds g ! activeRound g))"
    for g'
  proof -
    define makes' where "makes' = (if ?tie then filled @ [None] else filled)"
    have 1: "map_of (attempts (rounds g' ! activeRound g)) (player_id p) = Some makes'"
      using m1 by (simp add: att makes'_def map_of_overtime)
    have 2: "makes' = filled \<or> makes' = filled @ [None]" by (simp add: makes'_def)
    have 3: "makes' = filled @ [None] \<longleftrightarrow> ?tie" by (simp add: makes'_def)
    have 4: "?others \<longrightarrow> activeRound g' = activeRound g \<and>
        activePlayer (rounds g' ! activeRound g) =
          (activePlayer (rounds g ! activeRound g) + 1) mod
            length (order (rounds g ! activeRound g))"
      using left adv by blast
    have 5: "gameReducer uuid rnd g (Play simulate) = Inr g'" using red e by simp
    note e' = e [unfolded g1_def] and 3 = 3 [unfolded g1_def]
    show ?thesis
      by (rule exI [of _ makes], rule exI [of _ filled], rule exI [of _ g'],
          rule exI [of _ makes'])
         (intro conjI m f1 5 e' 1 2 3 4)
  qed
  from gok1 show ?thesis
  proof (cases rule: endRound_cases [where uuid = uuid])
    case pending
    have "rounds (passed g1) ! activeRound g =
        ?r1\<lparr>activePlayer := (activePlayer ?r1 + 1) mod length (order ?r1)\<rparr>"
      using active_passed [OF ar1] a1 by simp
    then show ?thesis
      using pending a1 by (intro concl [of "passed g1"]) (simp_all add: act)
  next
    case nobody
    then show ?thesis using a1 by (intro concl [of g1]) simp_all
  next
    case tie
    have "rounds (extended g1) ! activeRound g =
        ?r1\<lparr>attempts := map (\<lambda>(id', atts). (id', atts @ [None])) (attempts ?r1)\<rparr>"
      using active_extended [OF ar1] a1 by simp
    then show ?thesis using tie a1 by (intro concl [of "extended g1"]) simp_all
  next
    case (won w y q)
    have "rounds (decided g1 w\<lparr>game_winner := Some q\<rparr>) ! activeRound g = ?r1\<lparr>winner := Some w\<rparr>"
      using active_decided [OF ar1] a1 by simp
    then show ?thesis
      using won a1 by (intro concl [of "decided g1 w\<lparr>game_winner := Some q\<rparr>"]) simp_all
  next
    case (created w)
    define g' where "g' = endRound_turn (activeRound (decided g1 w))
        (createNextRound uuid (decided g1 w))"
    have len1: "Suc (activeRound g1) = length (rounds g1)" using gok1 by (simp add: game_ok_def)
    have dlen: "Suc (activeRound (decided g1 w)) = length (rounds (decided g1 w))"
      using len1 by simp
    note f = next_round_facts [OF dlen decided_full [OF ar1 created(1)], where uuid = uuid,
        folded g'_def]
    have "rounds g' ! activeRound g = resting (?r1\<lparr>winner := Some w\<rparr>)"
      using f(3) active_decided [OF ar1, of w] a1 by simp
    then show ?thesis
      using created a1 by (intro concl [of g']) (simp_all add: g'_def)
  qed
qed

theorem simulate_fills_all_witness:
  "(started (ann_and_cy [Some True] [None] 1) \<and> getActivePlayer (ann_and_cy [Some True] [None] 1) = Inr pC \<and> \<not> controlled pC \<and>
    gameReducer ''r2'' rnd0 (ann_and_cy [Some True] [None] 1) (Play simulate) = Inr (ann_and_cy [Some True, None] [Some True, None] 1) \<and>
    map_of (attempts (rounds (ann_and_cy [Some True] [None] 1) ! activeRound (ann_and_cy [Some True] [None] 1))) (player_id pC) = Some [None] \<and>
    map_of (attempts (rounds (ann_and_cy [Some True, None] [Some True, None] 1) ! activeRound (ann_and_cy [Some True] [None] 1))) (player_id pC) = Some [Some True, None]) \<and>
   (started (with_cy [None, None] 0) \<and> getActivePlayer (with_cy [None, None] 0) = Inr pC \<and>
    player_id pC \<noteq> ''__proto__'' \<and> player_id pA \<noteq> ''__proto__'' \<and>
    (\<exists>(k, v) \<in> set (attempts (rounds (with_cy [None, None] 0) ! activeRound (with_cy [None, None] 0))). k \<noteq> player_id pC \<and> None \<in> set v) \<and>
    gameReducer ''r2'' rnd0 (with_cy [None, None] 0) (Play simulate) = Inr (with_cy [Some True, Some True] 1) \<and>
    (\<exists>makes filled g' makes'.
       map_of (attempts (rounds (with_cy [None, None] 0) ! activeRound (with_cy [None, None] 0))) (player_id pC) = Some makes \<and>
       length filled = length makes \<and> None \<notin> set filled \<and>
       (\<forall>i < length makes. makes ! i \<noteq> None \<longrightarrow> filled ! i = makes ! i) \<and>
       gameReducer ''r2'' rnd0 (with_cy [None, None] 0) (Play simulate) = Inr g' \<and>
       endRound ''r2'' (set_makes (with_cy [None, None] 0) (rounds (with_cy [None, None] 0) ! activeRound (with_cy [None, None] 0)) (player_id pC) filled) =
         Inr g' \<and>
       map_of (attempts (rounds g' ! activeRound (with_cy [None, None] 0))) (player_id pC) = Some makes' \<and>
       (makes' = filled \<or> makes' = filled @ [None]) \<and>
       (makes' = filled @ [None] \<longleftrightarrow>
          \<not> hasAttemptsLeft
              (rounds (set_makes (with_cy [None, None] 0) (rounds (with_cy [None, None] 0) ! activeRound (with_cy [None, None] 0)) (player_id pC) filled) !
                 activeRound (with_cy [None, None] 0)) \<and>
          2 \<le> length (leaders
              (rounds (set_makes (with_cy [None, None] 0) (rounds (with_cy [None, None] 0) ! activeRound (with_cy [None, None] 0)) (player_id pC) filled) !
                 activeRound (with_cy [None, None] 0)))) \<and>
       ((\<exists>(k, v) \<in> set (attempts (rounds (with_cy [None, None] 0) ! activeRound (with_cy [None, None] 0))).
            k \<noteq> player_id pC \<and> None \<in> set v) \<longrightarrow>
          activeRound g' = activeRound (with_cy [None, None] 0) \<and>
          activePlayer (rounds g' ! activeRound (with_cy [None, None] 0)) =
            (activePlayer (rounds (with_cy [None, None] 0) ! activeRound (with_cy [None, None] 0)) + 1) mod
              length (order (rounds (with_cy [None, None] 0) ! activeRound (with_cy [None, None] 0))))))"
proof -
  have 1: "getActivePlayer (ann_and_cy [Some True] [None] 1) = Inr pC" "getActivePlayer (with_cy [None, None] 0) = Inr pC"
    by (simp_all add: model_defs example_defs)
  have 2: "\<not> controlled pC" by (simp add: pC_def)
  have 3: "gameReducer ''r2'' rnd0 (ann_and_cy [Some True] [None] 1) (Play simulate) = Inr (ann_and_cy [Some True, None] [Some True, None] 1)"
    by (simp add: model_defs example_defs leaders_def)
  have 4: "gameReducer ''r2'' rnd0 (with_cy [None, None] 0) (Play simulate) = Inr (with_cy [Some True, Some True] 1)"
    by (simp add: model_defs example_defs)
  have 5: "map_of (attempts (rounds (ann_and_cy [Some True] [None] 1) ! activeRound (ann_and_cy [Some True] [None] 1))) (player_id pC) = Some [None]"
    "map_of (attempts (rounds (ann_and_cy [Some True, None] [Some True, None] 1) ! activeRound (ann_and_cy [Some True] [None] 1))) (player_id pC) = Some [Some True, None]"
    "\<exists>(k, v) \<in> set (attempts (rounds (with_cy [None, None] 0) ! activeRound (with_cy [None, None] 0))). k \<noteq> player_id pC \<and> None \<in> set v"
    by (simp_all add: example_defs)
  have 6: "player_id pC \<noteq> ''__proto__''" "player_id pA \<noteq> ''__proto__''"
    by (simp_all add: example_defs)
  have ids: "\<forall>q \<in> set (players (with_cy [None, None] 0)). player_id q \<noteq> ''__proto__''"
    by (simp add: example_defs)
  show ?thesis
    using simulate_fills_all [OF started_with_cy 1(2) 2 ids, of "''r2''" rnd0]
      started_ann_and_cy started_with_cy 1 2 3 4 5 6
    by blast
qed

theorem simulate_fills_all_counterexample:
  "started (ann_and_cy [Some True] [None] 1) \<and> getActivePlayer (ann_and_cy [Some True] [None] 1) = Inr pC \<and> \<not> controlled pC \<and>
   gameReducer ''r2'' rnd0 (ann_and_cy [Some True] [None] 1) (Play simulate) = Inr (ann_and_cy [Some True, None] [Some True, None] 1) \<and>
   map_of (attempts (rounds (ann_and_cy [Some True, None] [Some True, None] 1) ! activeRound (ann_and_cy [Some True, None] [Some True, None] 1))) (player_id pC) = Some [Some True, None] \<and>
   None \<in> set [Some True, None]"
proof -
  have 1: "getActivePlayer (ann_and_cy [Some True] [None] 1) = Inr pC" by (simp add: model_defs example_defs)
  have 2: "\<not> controlled pC" by (simp add: pC_def)
  have 3: "gameReducer ''r2'' rnd0 (ann_and_cy [Some True] [None] 1) (Play simulate) = Inr (ann_and_cy [Some True, None] [Some True, None] 1)"
    by (simp add: model_defs example_defs)
  have 4: "map_of (attempts (rounds (ann_and_cy [Some True, None] [Some True, None] 1) ! activeRound (ann_and_cy [Some True, None] [Some True, None] 1))) (player_id pC) =
      Some [Some True, None]"
    by (simp add: example_defs)
  show ?thesis using started_ann_and_cy 1 2 3 4 by simp
qed

text \<open>
  C7. A \<open>make\<close> or \<open>miss\<close> dispatched while the active player is not controlled, and a
  \<open>simulate\<close> dispatched while the active player is controlled, returns the input state
  itself; nothing is thrown. (The condition \<open>controlled p = (t = simulate)\<close> says exactly
  that the action does not fit the active player.)
\<close>

theorem noop_isolation:
  assumes "getActivePlayer g = Inr p" and "controlled p = (t = simulate)"
  shows "gameReducer uuid rnd g (Play t) = Inr g"
proof (cases "t = simulate")
  case True
  then show ?thesis using assms by (simp add: recipe_simulate)
next
  case False
  then show ?thesis using assms by (simp add: recipe_shot)
qed

theorem noop_isolation_witness:
  "(getActivePlayer (with_cy [None, None] 0) = Inr pC \<and> controlled pC = (make = simulate) \<and>
    gameReducer ''r2'' rnd0 (with_cy [None, None] 0) (Play make) = Inr (with_cy [None, None] 0)) \<and>
   (getActivePlayer (two_shots [None, None]) = Inr pA \<and> controlled pA = (simulate = simulate) \<and>
    gameReducer ''r2'' rnd0 (two_shots [None, None]) (Play simulate) = Inr (two_shots [None, None]))"
proof -
  have 1: "getActivePlayer (with_cy [None, None] 0) = Inr pC"
    by (simp add: model_defs example_defs)
  have 2: "controlled pC = (make = simulate)" by (simp add: pC_def)
  have 3: "getActivePlayer (two_shots [None, None]) = Inr pA"
    by (simp add: model_defs example_defs)
  have 4: "controlled pA = (simulate = simulate)" by (simp add: pA_def)
  show ?thesis
    using noop_isolation [OF 1 2, of "''r2''" rnd0] noop_isolation [OF 3 4, of "''r2''" rnd0]
      1 2 3 4 by simp
qed

text \<open>
  C8, as amended. In a started match that has a winner there is an active player, and no
  \<open>make\<close>, \<open>miss\<close> or \<open>simulate\<close> action changes the state: \<open>make\<close> and \<open>miss\<close> with a
  controlled active player throw (that player has no pending slot); \<open>simulate\<close>, and \<open>make\<close>
  and \<open>miss\<close> with an active player who is not controlled, return the state as it is.
\<close>

theorem game_over_no_change:
  assumes "started g" and "game_winner g \<noteq> None"
  shows "\<exists>p. getActivePlayer g = Inr p \<and>
     gameReducer uuid rnd g (Play t) =
       (if controlled p \<and> t \<noteq> simulate then Inl NoMoreMakes else Inr g)"
proof -
  note gok = started_game_ok [OF assms(1)]
  note ok = started_over_ok [OF assms(1)]
  from started_active_player [OF assms(1) won_roster [OF gok ok assms(2)]]
  obtain p where p: "getActivePlayer g = Inr p" ..
  show ?thesis using game_over_fixed [OF gok ok assms(2), of uuid rnd t] p by simp
qed

theorem game_over_no_change_witness:
  "started (match [round1 (Some True) (Some False) 0 (Some ''a''), round2 (Some True) (Some False) 1 (Some ''a'')] (Some pA) 1) \<and> game_winner (match [round1 (Some True) (Some False) 0 (Some ''a''), round2 (Some True) (Some False) 1 (Some ''a'')] (Some pA) 1) \<noteq> None \<and>
   getActivePlayer (match [round1 (Some True) (Some False) 0 (Some ''a''), round2 (Some True) (Some False) 1 (Some ''a'')] (Some pA) 1) = Inr pA \<and> controlled pA \<and>
   gameReducer ''r3'' rnd0 (match [round1 (Some True) (Some False) 0 (Some ''a''), round2 (Some True) (Some False) 1 (Some ''a'')] (Some pA) 1) (Play simulate) = Inr (match [round1 (Some True) (Some False) 0 (Some ''a''), round2 (Some True) (Some False) 1 (Some ''a'')] (Some pA) 1) \<and>
   gameReducer ''r3'' rnd0 (match [round1 (Some True) (Some False) 0 (Some ''a''), round2 (Some True) (Some False) 1 (Some ''a'')] (Some pA) 1) (Play miss) = Inl NoMoreMakes"
proof -
  have 1: "game_winner (match [round1 (Some True) (Some False) 0 (Some ''a''), round2 (Some True) (Some False) 1 (Some ''a'')] (Some pA) 1) \<noteq> None" by (simp add: match_def)
  have 2: "getActivePlayer (match [round1 (Some True) (Some False) 0 (Some ''a''), round2 (Some True) (Some False) 1 (Some ''a'')] (Some pA) 1) = Inr pA" by (simp add: model_defs example_defs)
  have 3: "controlled pA" by (simp add: pA_def)
  have 4: "gameReducer ''r3'' rnd0 (match [round1 (Some True) (Some False) 0 (Some ''a''), round2 (Some True) (Some False) 1 (Some ''a'')] (Some pA) 1) (Play simulate) = Inr (match [round1 (Some True) (Some False) 0 (Some ''a''), round2 (Some True) (Some False) 1 (Some ''a'')] (Some pA) 1)"
    using game_over_no_change [OF started_match5 1, of "''r3''" rnd0 simulate] 2 3 by simp
  have 5: "gameReducer ''r3'' rnd0 (match [round1 (Some True) (Some False) 0 (Some ''a''), round2 (Some True) (Some False) 1 (Some ''a'')] (Some pA) 1) (Play miss) = Inl NoMoreMakes"
    using game_over_no_change [OF started_match5 1, of "''r3''" rnd0 miss] 2 3 by simp
  show ?thesis using started_match5 1 2 3 4 5 by simp
qed

theorem game_over_make_counterexample:
  "started (match [round1 (Some True) (Some False) 0 (Some ''a''),
                   round2 (Some True) (Some False) 1 (Some ''a'')] (Some pA) 1) \<and>
   game_winner (match [round1 (Some True) (Some False) 0 (Some ''a''),
                   round2 (Some True) (Some False) 1 (Some ''a'')] (Some pA) 1) = Some pA \<and>
   gameReducer ''r3'' rnd0
     (match [round1 (Some True) (Some False) 0 (Some ''a''),
             round2 (Some True) (Some False) 1 (Some ''a'')] (Some pA) 1) (Play make) =
   Inl NoMoreMakes"
proof -
  have "gameReducer ''r3'' rnd0
     (match [round1 (Some True) (Some False) 0 (Some ''a''),
             round2 (Some True) (Some False) 1 (Some ''a'')] (Some pA) 1) (Play make) =
   Inl NoMoreMakes"
    by (simp add: model_defs example_defs)
  then show ?thesis using started_match5 by (simp add: match_def)
qed




text \<open>
  C10. In a state with no rounds (no \<open>start\<close> has been dispatched), \<open>make\<close>, \<open>miss\<close> and
  \<open>simulate\<close> throw: the lookup of the active round fails its invariant check. The state is
  not returned unchanged.
\<close>

theorem no_rounds_raises:
  "rounds g = [] \<Longrightarrow> gameReducer uuid rnd g (Play t) = Inl RoundNotFound"
  by (simp add: recipe_def getActiveRound_def)

theorem no_rounds_raises_witness:
  "rounds (GAME ''g'') = [] \<and>
   gameReducer ''u'' rnd0 (GAME ''g'') (Play make) = Inl RoundNotFound"
  using no_rounds_raises [of "GAME ''g''" "''u''" rnd0 make] by (simp add: GAME_def)

end
